theory Spec2Isabelle
  imports Main "HOL-Library.Word" "HOL-Library.Log_Nat"
begin

unbundle bit_operations_syntax

section \<open>The queue object of \<^verbatim>\<open>spsc_queue.h\<close>\<close>

text \<open>
  \<^verbatim>\<open>index_t\<close> is \<^verbatim>\<open>uint64_t\<close> and \<^verbatim>\<open>size_t\<close> is 64 bits wide on the
  targets of the switch: both are \<open>64 word\<close>, whose \<open>+\<close> and \<open>-\<close> wrap and whose
  \<open><\<close> and \<open>\<le>\<close> compare unsigned values, as the casts \<^verbatim>\<open>index_t(...)\<close> of the
  source do.
\<close>

type_synonym index_t = "64 word"
type_synonym size_t = "64 word"

text \<open>
  The class \<^verbatim>\<open>Semaphore\<close> holds one flag behind a mutex. \<^verbatim>\<open>signal\<close> sets it;
  \<^verbatim>\<open>wait\<close> returns only once the flag is set and clears it, so on a clear flag the
  caller stays parked: \<open>None\<close>.
\<close>

type_synonym Semaphore = bool

definition Semaphore_signal :: "Semaphore \<Rightarrow> Semaphore" where
  "Semaphore_signal flag = True"

definition Semaphore_wait :: "Semaphore \<Rightarrow> Semaphore option" where
  "Semaphore_wait flag = (if flag then Some False else None)"

text \<open>
  The data members of \<^verbatim>\<open>SPSCQueue<T>\<close>. The atomics \<^verbatim>\<open>__prod_index\<close> and
  \<^verbatim>\<open>__cons_index\<close> are the fields \<open>prod_index\<close> and \<open>cons_index\<close> (an
  identifier cannot start with an underscore here).
\<close>

record 'a SPSCQueue =
  ring_capacity :: size_t
  queue_capacity :: size_t
  ring :: "'a list"
  prod_index :: index_t
  prod_event :: index_t
  prod_ci :: index_t
  prod_pi :: index_t
  cons_index :: index_t
  cons_event :: index_t
  cons_ci :: index_t
  cons_pi :: index_t
  prod_sem :: Semaphore
  cons_sem :: Semaphore
  cons_not :: "64 word"
  prod_not :: "64 word"

text \<open>\<^verbatim>\<open>max_size = 1ul<<(sizeof(index_t)*8-1)\<close>\<close>

definition max_size :: size_t where
  "max_size = push_bit (8 * 8 - 1) 1"

subsection \<open>Construction\<close>

text \<open>
  The constructor can end in two ways without a queue: \<^verbatim>\<open>new T[ring_capacity]\<close> throws
  \<^verbatim>\<open>std::bad_alloc\<close>, or \<^verbatim>\<open>assert(ring_capacity <= max_size)\<close> fails and aborts the
  program. There is no other check and no other exception in it.
\<close>

datatype error = Bad_alloc | Assertion_failed

text \<open>
  What the constructor takes from outside the repository:
  \<^item> \<open>log2\<close>: the function \<^verbatim>\<open>log2\<close> of \<^verbatim>\<open><cmath>\<close> on a double with a whole value of
    at least one, the double it returns given as a real number;
  \<^item> \<open>can_alloc\<close>: whether the allocator grants an array of so many \<^verbatim>\<open>T\<close>;
  \<^item> \<open>fresh\<close>: what each position of a granted array holds, the default-constructed
    \<^verbatim>\<open>T\<close> of a class type or whatever the memory held for a scalar \<^verbatim>\<open>T\<close>.
\<close>

record 'a platform =
  log2 :: "nat \<Rightarrow> real"
  can_alloc :: "nat \<Rightarrow> bool"
  fresh :: "nat \<Rightarrow> 'a"

text \<open>
  The conversion of \<^verbatim>\<open>max_capacity\<close> to \<^verbatim>\<open>double\<close> in the call
  \<^verbatim>\<open>log2(max_capacity)\<close>. A double has a significand of 53 bits: a number of more bits
  (\<open>floorlog 2 n\<close> is the number of bits of \<open>n\<close>) is rounded to the nearest multiple of
  \<open>2 ^ e\<close>, \<open>e\<close> the number of bits in excess, and to the even one of two nearest. The
  result is a whole number again.
\<close>

definition to_double :: "nat \<Rightarrow> nat" where
  "to_double n =
     (let e = floorlog 2 n - 53;
          q = n div 2 ^ e;
          r = n mod 2 ^ e
      in if 2 * r < 2 ^ e \<or> (2 * r = 2 ^ e \<and> even q) then q * 2 ^ e else (q + 1) * 2 ^ e)"

text \<open>
  \<^verbatim>\<open>uint64_t(ceil(log2(max_capacity)))\<close>. \<^verbatim>\<open>ceil\<close> is exact on doubles, and so is the
  conversion of its value to \<^verbatim>\<open>uint64_t\<close>, the logarithm of a number between \<open>1\<close> and
  \<open>2^64\<close> lying between \<open>0\<close> and \<open>64\<close>. For a capacity of zero \<^verbatim>\<open>log2\<close> is minus
  infinity, whose conversion to \<^verbatim>\<open>uint64_t\<close> the language leaves undefined; the model
  takes the value the conversion instruction of x86-64 delivers, \<open>2^63\<close>.
\<close>

definition log2_ceil :: "'a platform \<Rightarrow> size_t \<Rightarrow> nat" where
  "log2_ceil pf c =
     (if c = 0 then 2 ^ 63 else nat \<lceil>log2 pf (to_double (unat c))\<rceil>)"

text \<open>
  \<^verbatim>\<open>x << n\<close> on 64 bits. For \<open>n < 64\<close> this is the shift of the language; for a
  larger count, which the language leaves undefined, the shift instruction of x86-64 uses
  the low six bits of the count.
\<close>

definition shl :: "64 word \<Rightarrow> nat \<Rightarrow> 64 word" where
  "shl x n = push_bit (n mod 64) x"

text \<open>
  \<^verbatim>\<open>new T[n]\<close>. An array of more bytes than \<^verbatim>\<open>PTRDIFF_MAX\<close>, which is \<open>2^63 - 1\<close>, is
  refused whatever the allocator, so every \<open>n\<close> from \<open>2^63\<close> on is; below that the
  allocator decides.
\<close>

definition new_array :: "'a platform \<Rightarrow> nat \<Rightarrow> error + 'a list" where
  "new_array pf n =
     (if n < 2 ^ 63 \<and> can_alloc pf n then Inr (map (fresh pf) [0..<n]) else Inl Bad_alloc)"

text \<open>
  \<^verbatim>\<open>SPSCQueue(size_t max_capacity)\<close>. The members are initialised in the order of their
  declaration, \<^verbatim>\<open>ring_capacity\<close>, \<^verbatim>\<open>queue_capacity\<close>, \<^verbatim>\<open>ring\<close>, then the indices,
  the semaphores and the counters; the assertion is the body.
\<close>

definition new_SPSCQueue :: "'a platform \<Rightarrow> size_t \<Rightarrow> error + 'a SPSCQueue" where
  "new_SPSCQueue pf max_capacity =
     (let rc = shl 1 (log2_ceil pf max_capacity)
      in case new_array pf (unat rc) of
           Inl e \<Rightarrow> Inl e
         | Inr r \<Rightarrow>
             (let q = \<lparr>ring_capacity = rc, queue_capacity = max_capacity, ring = r,
                       prod_index = 0, prod_event = 0, prod_ci = 0, prod_pi = 0,
                       cons_index = 0, cons_event = 0, cons_ci = 0, cons_pi = 0,
                       prod_sem = False, cons_sem = False, cons_not = 0, prod_not = 0\<rparr>
              in if ring_capacity q \<le> max_size then Inr q else Inl Assertion_failed))"

subsection \<open>Index arithmetic\<close>

text \<open>\<^verbatim>\<open>normalize_index\<close>: the position in the array of the slot with counter \<open>index\<close>.\<close>

definition normalize_index :: "'a SPSCQueue \<Rightarrow> index_t \<Rightarrow> size_t" where
  "normalize_index q index = index AND (ring_capacity q - 1)"

text \<open>
  \<^verbatim>\<open>prod_has_space\<close> and \<^verbatim>\<open>cons_has_data\<close> refresh the caller's shadow of the other
  side's published index and compare; they return the answer and the new state.
\<close>

definition prod_has_space :: "index_t \<Rightarrow> 'a SPSCQueue \<Rightarrow> bool \<times> 'a SPSCQueue" where
  "prod_has_space want q =
     (let q1 = q\<lparr>prod_ci := cons_index q\<rparr>
      in (prod_pi q1 - prod_ci q1 \<le> queue_capacity q1 - want, q1))"

definition cons_has_data :: "index_t \<Rightarrow> 'a SPSCQueue \<Rightarrow> bool \<times> 'a SPSCQueue" where
  "cons_has_data want q =
     (let q1 = q\<lparr>cons_pi := prod_index q\<rparr>
      in (cons_pi q1 - cons_ci q1 \<ge> want, q1))"

subsection \<open>Notification\<close>

text \<open>
  \<^verbatim>\<open>cons_notify\<close>: publish the consumer index, then signal the producer's semaphore
  when the producer's event lies behind the published advance.
\<close>

definition cons_notify :: "'a SPSCQueue \<Rightarrow> 'a SPSCQueue" where
  "cons_notify q =
     (let old = cons_index q;
          q1 = q\<lparr>cons_index := cons_ci q\<rparr>;
          pe = prod_event q1
      in if cons_ci q1 - pe - 1 < cons_ci q1 - old
         then q1\<lparr>prod_sem := Semaphore_signal (prod_sem q1), cons_not := cons_not q1 + 1\<rparr>
         else q1)"

text \<open>\<^verbatim>\<open>prod_notify\<close>: the same on the producer's side.\<close>

definition prod_notify :: "'a SPSCQueue \<Rightarrow> 'a SPSCQueue" where
  "prod_notify q =
     (let old = prod_index q;
          q1 = q\<lparr>prod_index := prod_pi q\<rparr>;
          ce = cons_event q1
      in if prod_pi q1 - ce - 1 < prod_pi q1 - old
         then q1\<lparr>cons_sem := Semaphore_signal (cons_sem q1), prod_not := prod_not q1 + 1\<rparr>
         else q1)"

text \<open>
  The half-open interval \<open>(lo, hi]\<close> modulo \<open>2^64\<close>: the indices \<open>lo + 1\<close>,
  \<open>lo + 2\<close>, ..., \<open>hi\<close>, counted with wrap-around.
\<close>

definition mod_interval :: "index_t \<Rightarrow> index_t \<Rightarrow> index_t set" where
  "mod_interval lo hi = {lo + 1 + word_of_nat k | k. k < unat (hi - lo)}"

subsection \<open>Advancing\<close>

definition prod_advance :: "index_t \<Rightarrow> bool \<Rightarrow> 'a SPSCQueue \<Rightarrow> 'a SPSCQueue" where
  "prod_advance have force q =
     (let q1 = q\<lparr>prod_pi := prod_pi q + have\<rparr>
      in if force then prod_notify q1 else q1)"

definition cons_advance :: "index_t \<Rightarrow> 'a SPSCQueue \<Rightarrow> 'a SPSCQueue" where
  "cons_advance have q =
     (let q1 = q\<lparr>cons_ci := cons_ci q + have\<rparr>
      in if cons_pi q1 = cons_ci q1 then cons_notify q1 else q1)"

subsection \<open>The calls, run by one thread while the other stands still\<close>

text \<open>
  A call either returns a value and the new state, or its thread parks on its semaphore
  with the flag clear; while the other thread stands still it then stays parked, and
  \<open>Parks\<close> holds the state it parked in.
\<close>

datatype ('r, 's) outcome = Returns 'r 's | Parks 's

text \<open>
  \<^verbatim>\<open>prod_wait_space\<close>. A latched flag lets \<^verbatim>\<open>prod_sem.wait()\<close> return at once, and
  the loop goes round again with the flag clear.
\<close>

function prod_wait_space :: "index_t \<Rightarrow> 'a SPSCQueue \<Rightarrow> (index_t, 'a SPSCQueue) outcome" where
  "prod_wait_space want q =
     (let (ok, q1) = prod_has_space want q in
      if ok then Returns (prod_ci q1 + queue_capacity q1 - prod_pi q1) q1
      else
        let q2 = q1\<lparr>prod_event := prod_ci q1 + (prod_pi q1 - prod_ci q1) div 4\<rparr>;
            q3 = prod_notify q2;
            (ok', q4) = prod_has_space want q3 in
        if ok' then Returns (prod_ci q4 + queue_capacity q4 - prod_pi q4) q4
        else
          (case Semaphore_wait (prod_sem q4) of
             None \<Rightarrow> Parks q4
           | Some flag \<Rightarrow>
               prod_wait_space want (q4\<lparr>prod_sem := flag, prod_ci := cons_index q4\<rparr>)))"
  by pat_completeness auto
termination
proof (relation "measure (\<lambda>(want, q). if prod_sem q then 1 else 0)")
  show "wf (measure (\<lambda>(want :: index_t, q :: 'a SPSCQueue). if prod_sem q then 1 else 0))"
    by simp
next
  fix want :: index_t and q :: "'a SPSCQueue" and x ok q1 q2 q3 x' ok' q4 flag
  assume "x = prod_has_space want q" "(ok, q1) = x"
    "q2 = q1\<lparr>prod_event := prod_ci q1 + (prod_pi q1 - prod_ci q1) div 4\<rparr>"
    "q3 = prod_notify q2" "x' = prod_has_space want q3" "(ok', q4) = x'"
    "Semaphore_wait (prod_sem q4) = Some flag"
  then show "((want, q4\<lparr>prod_sem := flag, prod_ci := cons_index q4\<rparr>), want, q)
      \<in> measure (\<lambda>(want, q). if prod_sem q then 1 else 0)"
    by (auto simp: prod_has_space_def prod_notify_def Let_def Semaphore_wait_def
        split: if_splits)
qed

text \<open>
  \<^verbatim>\<open>cons_wait_data\<close>. Its first statement reads \<^verbatim>\<open>__cons_index\<close> into a local that
  is never used, and \<^verbatim>\<open>sleep_for\<close> changes nothing of the queue: both leave the state
  as it is.
\<close>

function cons_wait_data :: "index_t \<Rightarrow> 'a SPSCQueue \<Rightarrow> (index_t, 'a SPSCQueue) outcome" where
  "cons_wait_data want q =
     (let (ok, q1) = cons_has_data want q in
      if ok then Returns (cons_pi q1 - cons_ci q1) q1
      else
        let (ok', q2) = cons_has_data want q1 in
        if ok' then Returns (cons_pi q2 - cons_ci q2) q2
        else
          let q3 = q2\<lparr>cons_event := cons_ci q2 + want - 1\<rparr>;
              q4 = cons_notify q3;
              (ok'', q5) = cons_has_data want q4 in
          if ok'' then Returns (cons_pi q5 - cons_ci q5) q5
          else
            (case Semaphore_wait (cons_sem q5) of
               None \<Rightarrow> Parks q5
             | Some flag \<Rightarrow> cons_wait_data want (q5\<lparr>cons_sem := flag\<rparr>)))"
  by pat_completeness auto
termination
proof (relation "measure (\<lambda>(want, q). if cons_sem q then 1 else 0)")
  show "wf (measure (\<lambda>(want :: index_t, q :: 'a SPSCQueue). if cons_sem q then 1 else 0))"
    by simp
next
  fix want :: index_t and q :: "'a SPSCQueue" and x ok q1 x' ok' q2 q3 q4 x'' ok'' q5 flag
  assume "x = cons_has_data want q" "(ok, q1) = x" "x' = cons_has_data want q1" "(ok', q2) = x'"
    "q3 = q2\<lparr>cons_event := cons_ci q2 + want - 1\<rparr>"
    "q4 = cons_notify q3" "x'' = cons_has_data want q4" "(ok'', q5) = x''"
    "Semaphore_wait (cons_sem q5) = Some flag"
  then show "((want, q5\<lparr>cons_sem := flag\<rparr>), want, q)
      \<in> measure (\<lambda>(want, q). if cons_sem q then 1 else 0)"
    by (auto simp: cons_has_data_def cons_notify_def Let_def Semaphore_wait_def
        split: if_splits)
qed

text \<open>
  \<^verbatim>\<open>push_front_forward\<close>, and \<^verbatim>\<open>push_front\<close>, whose two overloads both forward to
  it.
\<close>

definition push_front_forward :: "'a \<Rightarrow> bool \<Rightarrow> 'a SPSCQueue \<Rightarrow> (bool, 'a SPSCQueue) outcome" where
  "push_front_forward item force q =
     (case prod_wait_space 1 q of
        Parks q' \<Rightarrow> Parks q'
      | Returns space q1 \<Rightarrow>
          let q2 = q1\<lparr>ring := (ring q1)[unat (normalize_index q1 (prod_pi q1)) := item]\<rparr>
          in Returns True (prod_advance 1 force q2))"

definition push_front :: "'a \<Rightarrow> bool \<Rightarrow> 'a SPSCQueue \<Rightarrow> (bool, 'a SPSCQueue) outcome" where
  "push_front item force q = push_front_forward item force q"

text \<open>
  \<^verbatim>\<open>pop_back(T* pItem)\<close>. \<^verbatim>\<open>std::move\<close> leaves the slot in the moved-from state of
  \<^verbatim>\<open>T\<close>: \<open>moved x\<close> is what an object holding \<open>x\<close> holds after the move (\<open>x\<close> itself
  for a type that is copied, the null pointer for a \<^verbatim>\<open>unique_ptr\<close>). The call returns
  its \<^verbatim>\<open>bool\<close> and the value stored to \<^verbatim>\<open>*pItem\<close>.
\<close>

definition pop_back :: "('a \<Rightarrow> 'a) \<Rightarrow> 'a SPSCQueue \<Rightarrow> (bool \<times> 'a, 'a SPSCQueue) outcome" where
  "pop_back moved q =
     (case cons_wait_data 1 q of
        Parks q' \<Rightarrow> Parks q'
      | Returns avail q1 \<Rightarrow>
          let k = unat (normalize_index q1 (cons_ci q1));
              pItem = ring q1 ! k;
              q2 = q1\<lparr>ring := (ring q1)[k := moved pItem]\<rparr>
          in Returns (True, pItem) (cons_advance 1 q2))"

text \<open>
  The \<^verbatim>\<open>for\<close> loop of \<^verbatim>\<open>pop_back(std::vector<T>* container)\<close>, from counter \<open>i\<close>
  on.
\<close>

function pop_back_loop ::
  "('a \<Rightarrow> 'a) \<Rightarrow> index_t \<Rightarrow> index_t \<Rightarrow> 'a list \<Rightarrow> 'a SPSCQueue \<Rightarrow> 'a list \<times> 'a SPSCQueue" where
  "pop_back_loop moved num i container q =
     (if i < num
      then let k = unat (normalize_index q (cons_ci q + i));
               x = ring q ! k
           in pop_back_loop moved num (i + 1) (container @ [x])
                (q\<lparr>ring := (ring q)[k := moved x]\<rparr>)
      else (container, q))"
  by pat_completeness auto
termination
proof (relation "measure (\<lambda>(moved, num, i, container, q). unat num - unat i)")
  show "wf (measure (\<lambda>(moved :: 'a \<Rightarrow> 'a, num :: index_t, i :: index_t, container :: 'a list,
      q :: 'a SPSCQueue). unat num - unat i))"
    by simp
next
  fix moved :: "'a \<Rightarrow> 'a" and num i :: index_t and container :: "'a list"
    and q :: "'a SPSCQueue" and k x
  assume lt: "i < num"
  then have "unat i < unat num"
    by (simp add: word_less_nat_alt)
  moreover have "unat num < 2 ^ 64"
    using unsigned_less [of num, where ?'a = nat] by simp
  ultimately have "unat i + unat (1 :: index_t) < 2 ^ LENGTH(64)"
    by simp
  then have "unat (i + 1) = unat i + 1"
    by (simp add: unat_add_lem [THEN iffD1])
  with \<open>unat i < unat num\<close>
  show "((moved, num, i + 1, container @ [x], q\<lparr>ring := (ring q)[k := moved x]\<rparr>),
      moved, num, i, container, q)
      \<in> measure (\<lambda>(moved, num, i, container, q). unat num - unat i)"
    by simp
qed

text \<open>
  \<^verbatim>\<open>pop_back(std::vector<T>* container)\<close>: the call returns its \<^verbatim>\<open>bool\<close> and the
  contents of the caller's vector after it.
\<close>

definition pop_back_vec ::
  "('a \<Rightarrow> 'a) \<Rightarrow> 'a list \<Rightarrow> 'a SPSCQueue \<Rightarrow> (bool \<times> 'a list, 'a SPSCQueue) outcome" where
  "pop_back_vec moved container q =
     (case cons_wait_data 1 q of
        Parks q' \<Rightarrow> Parks q'
      | Returns num q1 \<Rightarrow>
          let (container', q2) = pop_back_loop moved num 0 container q1
          in Returns (True, container') (cons_advance num q2))"

subsection \<open>The two threads, step by step\<close>

text \<open>
  For the interleavings of the producer's thread with the consumer's, each call is cut
  into steps with at most one access to a field the other thread reads or writes; a
  label names the statement a thread is about to run. \<^verbatim>\<open>prod_notify\<close> and
  \<^verbatim>\<open>cons_notify\<close> are called from the wait loop and from the advance, and \<open>site\<close>
  remembers from which.
\<close>

datatype site = In_wait | In_advance

text \<open>
  The producer's labels, in \<^verbatim>\<open>push_front_forward\<close>:
  \<^item> \<open>P_wait_check\<close>: \<^verbatim>\<open>if (prod_has_space(want)) break;\<close> at the head of the loop of
    \<^verbatim>\<open>prod_wait_space\<close>;
  \<^item> \<open>P_wait_event\<close>: \<^verbatim>\<open>prod_event = prod_ci + (prod_pi - prod_ci) / 4;\<close>
  \<^item> \<open>P_notify_publish\<close>: \<^verbatim>\<open>old = __prod_index; __prod_index = prod_pi;\<close> of
    \<^verbatim>\<open>prod_notify\<close> (only the producer writes \<^verbatim>\<open>__prod_index\<close>);
  \<^item> \<open>P_notify_load\<close>: \<^verbatim>\<open>ce = cons_event;\<close>
  \<^item> \<open>P_notify_test\<close>: the test, with \<^verbatim>\<open>cons_sem.signal(); prod_not++;\<close>
  \<^item> \<open>P_wait_recheck\<close>: the second \<^verbatim>\<open>if (prod_has_space(want)) break;\<close>
  \<^item> \<open>P_wait_park\<close>: \<^verbatim>\<open>prod_sem.wait();\<close> no step while the flag is clear;
  \<^item> \<open>P_wait_reload\<close>: \<^verbatim>\<open>prod_ci = __cons_index;\<close> and back to the head of the loop;
  \<^item> \<open>P_write\<close>: \<^verbatim>\<open>ring[normalize_index(prod_pi)] = item;\<close>
  \<^item> \<open>P_advance\<close>: \<^verbatim>\<open>prod_pi += have; if (force) prod_notify();\<close> of
    \<^verbatim>\<open>prod_advance\<close>, then \<^verbatim>\<open>return true\<close>.
\<close>

datatype plabel =
    P_wait_check
  | P_wait_event
  | P_notify_publish site
  | P_notify_load site
  | P_notify_test site
  | P_wait_recheck
  | P_wait_park
  | P_wait_reload
  | P_write
  | P_advance

record 'a prod_locals =
  p_item :: 'a
  p_force :: bool
  p_want :: index_t
  p_old :: index_t
  p_ce :: index_t

datatype 'a producer = P_idle | P_at plabel "'a prod_locals" | P_returned bool

text \<open>
  The consumer's labels, in the two forms of \<^verbatim>\<open>pop_back\<close>; \<open>c_batch\<close> tells the
  vector form from the other:
  \<^item> \<open>C_wait_check\<close>, \<open>C_wait_check2\<close>, \<open>C_wait_recheck\<close>: the three
    \<^verbatim>\<open>if (cons_has_data(want)) break;\<close> of \<^verbatim>\<open>cons_wait_data\<close>, each followed on
    success by \<^verbatim>\<open>return cons_pi - cons_ci\<close>;
  \<^item> \<open>C_wait_sleep\<close>: \<^verbatim>\<open>sleep_for\<close>;
  \<^item> \<open>C_wait_event\<close>: \<^verbatim>\<open>cons_event = cons_ci + want - 1;\<close>
  \<^item> \<open>C_notify_publish\<close>, \<open>C_notify_load\<close>, \<open>C_notify_test\<close>: \<^verbatim>\<open>cons_notify\<close>, cut
    as \<^verbatim>\<open>prod_notify\<close> is;
  \<^item> \<open>C_wait_park\<close>: \<^verbatim>\<open>cons_sem.wait();\<close> then the head of the loop;
  \<^item> \<open>C_move\<close>: \<^verbatim>\<open>*pItem = std::move(ring[normalize_index(cons_ci)]);\<close>
  \<^item> \<open>C_loop\<close>: the test \<^verbatim>\<open>i < num\<close> of the \<^verbatim>\<open>for\<close> loop and one
    \<^verbatim>\<open>push_back\<close>;
  \<^item> \<open>C_advance\<close>: \<^verbatim>\<open>cons_ci += have; if (cons_pi == cons_ci) cons_notify();\<close>
    of \<^verbatim>\<open>cons_advance\<close>, then \<^verbatim>\<open>return true\<close>.
\<close>

datatype clabel =
    C_wait_check
  | C_wait_sleep
  | C_wait_check2
  | C_wait_event
  | C_notify_publish site
  | C_notify_load site
  | C_notify_test site
  | C_wait_recheck
  | C_wait_park
  | C_move
  | C_loop
  | C_advance

record 'a cons_locals =
  c_batch :: bool
  c_pItem :: "'a option"
  c_container :: "'a list"
  c_want :: index_t
  c_num :: index_t
  c_i :: index_t
  c_have :: index_t
  c_old :: index_t
  c_pe :: index_t

datatype 'a consumer = C_idle | C_at clabel "'a cons_locals" | C_returned bool "'a option" "'a list"

fun prod_step :: "plabel \<Rightarrow> 'a prod_locals \<Rightarrow> 'a SPSCQueue \<Rightarrow> ('a SPSCQueue \<times> 'a producer) option" where
  "prod_step P_wait_check l q =
     (let (ok, q1) = prod_has_space (p_want l) q
      in Some (q1, P_at (if ok then P_write else P_wait_event) l))"
| "prod_step P_wait_event l q =
     Some (q\<lparr>prod_event := prod_ci q + (prod_pi q - prod_ci q) div 4\<rparr>,
           P_at (P_notify_publish In_wait) l)"
| "prod_step (P_notify_publish s) l q =
     Some (q\<lparr>prod_index := prod_pi q\<rparr>, P_at (P_notify_load s) (l\<lparr>p_old := prod_index q\<rparr>))"
| "prod_step (P_notify_load s) l q =
     Some (q, P_at (P_notify_test s) (l\<lparr>p_ce := cons_event q\<rparr>))"
| "prod_step (P_notify_test s) l q =
     Some (if prod_pi q - p_ce l - 1 < prod_pi q - p_old l
           then q\<lparr>cons_sem := Semaphore_signal (cons_sem q), prod_not := prod_not q + 1\<rparr>
           else q,
           case s of In_wait \<Rightarrow> P_at P_wait_recheck l | In_advance \<Rightarrow> P_returned True)"
| "prod_step P_wait_recheck l q =
     (let (ok, q1) = prod_has_space (p_want l) q
      in Some (q1, P_at (if ok then P_write else P_wait_park) l))"
| "prod_step P_wait_park l q =
     (case Semaphore_wait (prod_sem q) of
        None \<Rightarrow> None
      | Some flag \<Rightarrow> Some (q\<lparr>prod_sem := flag\<rparr>, P_at P_wait_reload l))"
| "prod_step P_wait_reload l q =
     Some (q\<lparr>prod_ci := cons_index q\<rparr>, P_at P_wait_check l)"
| "prod_step P_write l q =
     Some (q\<lparr>ring := (ring q)[unat (normalize_index q (prod_pi q)) := p_item l]\<rparr>,
           P_at P_advance l)"
| "prod_step P_advance l q =
     Some (q\<lparr>prod_pi := prod_pi q + 1\<rparr>,
           if p_force l then P_at (P_notify_publish In_advance) l else P_returned True)"

definition cons_wait_done :: "'a cons_locals \<Rightarrow> 'a SPSCQueue \<Rightarrow> 'a consumer" where
  "cons_wait_done l q =
     (let l1 = l\<lparr>c_num := cons_pi q - cons_ci q\<rparr>
      in if c_batch l1 then C_at C_loop (l1\<lparr>c_i := 0\<rparr>) else C_at C_move l1)"

fun cons_step ::
  "('a \<Rightarrow> 'a) \<Rightarrow> clabel \<Rightarrow> 'a cons_locals \<Rightarrow> 'a SPSCQueue \<Rightarrow> ('a SPSCQueue \<times> 'a consumer) option" where
  "cons_step moved C_wait_check l q =
     (let (ok, q1) = cons_has_data (c_want l) q
      in Some (q1, if ok then cons_wait_done l q1 else C_at C_wait_sleep l))"
| "cons_step moved C_wait_sleep l q = Some (q, C_at C_wait_check2 l)"
| "cons_step moved C_wait_check2 l q =
     (let (ok, q1) = cons_has_data (c_want l) q
      in Some (q1, if ok then cons_wait_done l q1 else C_at C_wait_event l))"
| "cons_step moved C_wait_event l q =
     Some (q\<lparr>cons_event := cons_ci q + c_want l - 1\<rparr>, C_at (C_notify_publish In_wait) l)"
| "cons_step moved (C_notify_publish s) l q =
     Some (q\<lparr>cons_index := cons_ci q\<rparr>, C_at (C_notify_load s) (l\<lparr>c_old := cons_index q\<rparr>))"
| "cons_step moved (C_notify_load s) l q =
     Some (q, C_at (C_notify_test s) (l\<lparr>c_pe := prod_event q\<rparr>))"
| "cons_step moved (C_notify_test s) l q =
     Some (if cons_ci q - c_pe l - 1 < cons_ci q - c_old l
           then q\<lparr>prod_sem := Semaphore_signal (prod_sem q), cons_not := cons_not q + 1\<rparr>
           else q,
           case s of In_wait \<Rightarrow> C_at C_wait_recheck l
                   | In_advance \<Rightarrow> C_returned True (c_pItem l) (c_container l))"
| "cons_step moved C_wait_recheck l q =
     (let (ok, q1) = cons_has_data (c_want l) q
      in Some (q1, if ok then cons_wait_done l q1 else C_at C_wait_park l))"
| "cons_step moved C_wait_park l q =
     (case Semaphore_wait (cons_sem q) of
        None \<Rightarrow> None
      | Some flag \<Rightarrow> Some (q\<lparr>cons_sem := flag\<rparr>, C_at C_wait_check l))"
| "cons_step moved C_move l q =
     (let k = unat (normalize_index q (cons_ci q));
          x = ring q ! k
      in Some (q\<lparr>ring := (ring q)[k := moved x]\<rparr>,
               C_at C_advance (l\<lparr>c_pItem := Some x, c_have := 1\<rparr>)))"
| "cons_step moved C_loop l q =
     (if c_i l < c_num l
      then let k = unat (normalize_index q (cons_ci q + c_i l));
               x = ring q ! k
           in Some (q\<lparr>ring := (ring q)[k := moved x]\<rparr>,
                    C_at C_loop (l\<lparr>c_container := c_container l @ [x], c_i := c_i l + 1\<rparr>))
      else Some (q, C_at C_advance (l\<lparr>c_have := c_num l\<rparr>)))"
| "cons_step moved C_advance l q =
     (let q1 = q\<lparr>cons_ci := cons_ci q + c_have l\<rparr>
      in Some (q1, if cons_pi q1 = cons_ci q1 then C_at (C_notify_publish In_advance) l
                   else C_returned True (c_pItem l) (c_container l)))"

text \<open>
  A state of the whole: the queue and the two threads. An event is a call by a thread
  that is not inside one (\<open>Push\<close>, \<open>Pop\<close>, \<open>Pop_vec\<close> with the vector's contents),
  or one step of the producer (\<open>Prod\<close>) or of the consumer (\<open>Cons\<close>); an event that
  cannot happen gives \<open>None\<close>. \<open>run\<close> takes a list of events in order, and
  \<open>start\<close> is the state with both threads outside any call.
\<close>

record 'a system =
  queue :: "'a SPSCQueue"
  producer :: "'a producer"
  consumer :: "'a consumer"

datatype 'a event = Push 'a bool | Pop | Pop_vec "'a list" | Prod | Cons

definition prod_locals0 :: "'a \<Rightarrow> bool \<Rightarrow> 'a prod_locals" where
  "prod_locals0 x f = \<lparr>p_item = x, p_force = f, p_want = 1, p_old = 0, p_ce = 0\<rparr>"

definition cons_locals0 :: "bool \<Rightarrow> 'a list \<Rightarrow> 'a cons_locals" where
  "cons_locals0 b v = \<lparr>c_batch = b, c_pItem = None, c_container = v, c_want = 1, c_num = 0,
     c_i = 0, c_have = 0, c_old = 0, c_pe = 0\<rparr>"

fun exec :: "('a \<Rightarrow> 'a) \<Rightarrow> 'a event \<Rightarrow> 'a system \<Rightarrow> 'a system option" where
  "exec moved (Push x f) s =
     (case producer s of
        P_at lab l \<Rightarrow> None
      | _ \<Rightarrow> Some (s\<lparr>producer := P_at P_wait_check (prod_locals0 x f)\<rparr>))"
| "exec moved Pop s =
     (case consumer s of
        C_at lab l \<Rightarrow> None
      | _ \<Rightarrow> Some (s\<lparr>consumer := C_at C_wait_check (cons_locals0 False [])\<rparr>))"
| "exec moved (Pop_vec v) s =
     (case consumer s of
        C_at lab l \<Rightarrow> None
      | _ \<Rightarrow> Some (s\<lparr>consumer := C_at C_wait_check (cons_locals0 True v)\<rparr>))"
| "exec moved Prod s =
     (case producer s of
        P_at lab l \<Rightarrow>
          (case prod_step lab l (queue s) of
             None \<Rightarrow> None
           | Some (q', p') \<Rightarrow> Some (s\<lparr>queue := q', producer := p'\<rparr>))
      | _ \<Rightarrow> None)"
| "exec moved Cons s =
     (case consumer s of
        C_at lab l \<Rightarrow>
          (case cons_step moved lab l (queue s) of
             None \<Rightarrow> None
           | Some (q', c') \<Rightarrow> Some (s\<lparr>queue := q', consumer := c'\<rparr>))
      | _ \<Rightarrow> None)"

fun run :: "('a \<Rightarrow> 'a) \<Rightarrow> 'a event list \<Rightarrow> 'a system \<Rightarrow> 'a system option" where
  "run moved [] s = Some s"
| "run moved (e # es) s = (case exec moved e s of None \<Rightarrow> None | Some s' \<Rightarrow> run moved es s')"

definition start :: "'a SPSCQueue \<Rightarrow> 'a system" where
  "start q = \<lparr>queue = q, producer = P_idle, consumer = C_idle\<rparr>"

subsection \<open>Notions for the statements\<close>

text \<open>
  What the ring holds for a counter, and for \<open>n\<close> successive counters from \<open>a\<close> on.
\<close>

definition slot :: "'a SPSCQueue \<Rightarrow> index_t \<Rightarrow> 'a" where
  "slot q i = ring q ! unat (normalize_index q i)"

definition slots :: "'a SPSCQueue \<Rightarrow> index_t \<Rightarrow> nat \<Rightarrow> 'a list" where
  "slots q a n = map (\<lambda>j. slot q (a + word_of_nat j)) [0..<n]"

text \<open>
  The ring as the constructor leaves it: a power of two slots, one array cell for each.
\<close>

definition ring_ok :: "'a SPSCQueue \<Rightarrow> bool" where
  "ring_ok q \<longleftrightarrow> (\<exists>e<64. ring_capacity q = 2 ^ e) \<and> length (ring q) = unat (ring_capacity q)"

text \<open>
  The state after one round of the wait loop of \<^verbatim>\<open>prod_wait_space\<close> that found no
  space: shadow refreshed, event published, \<^verbatim>\<open>prod_notify\<close> run. \<open>cons_slow\<close> is the
  same for \<^verbatim>\<open>cons_wait_data\<close>.
\<close>

definition prod_slow :: "'a SPSCQueue \<Rightarrow> 'a SPSCQueue" where
  "prod_slow q = prod_notify
     (q\<lparr>prod_ci := cons_index q,
        prod_event := cons_index q + (prod_pi q - cons_index q) div 4\<rparr>)"

definition cons_slow :: "index_t \<Rightarrow> 'a SPSCQueue \<Rightarrow> 'a SPSCQueue" where
  "cons_slow want q = cons_notify
     (q\<lparr>cons_pi := prod_index q, cons_event := cons_ci q + want - 1\<rparr>)"



text \<open>
  The invariant of the interleaved runs. Counted from the producer's shadow \<open>prod_ci\<close>,
  with wrap-around, the six indices stand in the order \<open>prod_ci\<close>, \<open>__cons_index\<close>,
  \<open>cons_ci\<close>, \<open>cons_pi\<close>, \<open>__prod_index\<close>, \<open>prod_pi\<close>, and the last is at most the
  logical capacity away.
\<close>

definition offs :: "'a SPSCQueue \<Rightarrow> index_t \<Rightarrow> nat" where
  "offs q x = unat (x - prod_ci q)"

definition ordered :: "'a SPSCQueue \<Rightarrow> bool" where
  "ordered q \<longleftrightarrow>
     offs q (cons_index q) \<le> offs q (cons_ci q)
     \<and> offs q (cons_ci q) \<le> offs q (cons_pi q)
     \<and> offs q (cons_pi q) \<le> offs q (prod_index q)
     \<and> offs q (prod_index q) \<le> offs q (prod_pi q)
     \<and> offs q (prod_pi q) \<le> unat (queue_capacity q)"

text \<open>
  What each thread knows at its label: past its wait loop the producer has a slot
  reserved, and the consumer has at least the elements it is about to take.
\<close>

fun prod_ok :: "'a SPSCQueue \<Rightarrow> 'a producer \<Rightarrow> bool" where
  "prod_ok q (P_at lab l) =
     (p_want l = 1
      \<and> (lab = P_write \<or> lab = P_advance \<longrightarrow>
           unat (prod_pi q - prod_ci q) + 1 \<le> unat (queue_capacity q)))"
| "prod_ok q P_idle = True"
| "prod_ok q (P_returned r) = True"

fun cons_ok :: "'a SPSCQueue \<Rightarrow> 'a consumer \<Rightarrow> bool" where
  "cons_ok q (C_at lab l) =
     (c_want l = 1
      \<and> (lab = C_move \<longrightarrow> 1 \<le> unat (cons_pi q - cons_ci q))
      \<and> (lab = C_loop \<longrightarrow> c_num l = cons_pi q - cons_ci q)
      \<and> (lab = C_advance \<longrightarrow> unat (c_have l) \<le> unat (cons_pi q - cons_ci q)))"
| "cons_ok q C_idle = True"
| "cons_ok q (C_returned r x v) = True"

definition invariant :: "'a system \<Rightarrow> bool" where
  "invariant s \<longleftrightarrow>
     queue_capacity (queue s) \<noteq> 0 \<and> ordered (queue s)
     \<and> prod_ok (queue s) (producer s) \<and> cons_ok (queue s) (consumer s)"

text \<open>
  Whatever a call of either thread has returned is \<^verbatim>\<open>true\<close>.
\<close>

definition returned_true :: "'a system \<Rightarrow> bool" where
  "returned_true s \<longleftrightarrow>
     (\<forall>r. producer s = P_returned r \<longrightarrow> r) \<and> (\<forall>r x v. consumer s = C_returned r x v \<longrightarrow> r)"

section \<open>The threshold-crossing test\<close>

lemma crossing_test_interval:
  fixes new old T :: index_t
  shows "(new - T - 1 < new - old) = (T \<in> mod_interval (old - 1) (new - 1))"
proof
  let ?d = "new - old" and ?x = "new - T - 1"
  assume "?x < ?d"
  then have ux: "unat ?x < unat ?d"
    by (simp add: word_less_nat_alt)
  define k where "k = unat ?d - 1 - unat ?x"
  have k: "k < unat ?d"
    using ux by (simp add: k_def)
  have "(word_of_nat k :: index_t) = ?d - 1 - ?x"
    using ux unfolding k_def by (simp add: of_nat_diff)
  then have "T = old - 1 + 1 + word_of_nat k"
    by simp
  with k show "T \<in> mod_interval (old - 1) (new - 1)"
    unfolding mod_interval_def by auto
next
  assume "T \<in> mod_interval (old - 1) (new - 1)"
  then obtain k where k: "k < unat (new - old)" and T: "T = old + word_of_nat k"
    unfolding mod_interval_def by auto
  have kk: "Suc k < 2 ^ 64"
    using k unsigned_less [of "new - old", where ?'a = nat] by simp
  have "new - T - 1 = (new - old) - word_of_nat (k + 1)"
    using T by simp
  also have "unat \<dots> = unat (new - old) - (k + 1)"
    using k kk
    by (subst unat_sub) (auto simp: word_le_nat_alt unat_of_nat simp del: of_nat_Suc of_nat_add)
  finally show "new - T - 1 < new - old"
    using k by (simp add: word_less_nat_alt)
qed

lemma mod_interval_upper: "lo \<noteq> hi \<Longrightarrow> hi \<in> mod_interval lo hi"
proof -
  assume ne: "lo \<noteq> hi"
  then have pos: "0 < unat (hi - lo)"
    by (simp add: unat_gt_0)
  have "(word_of_nat (unat (hi - lo) - 1) :: index_t) = hi - lo - 1"
    using pos by (simp add: of_nat_diff)
  then have "hi = lo + 1 + word_of_nat (unat (hi - lo) - 1)"
    by simp
  moreover have "unat (hi - lo) - 1 < unat (hi - lo)"
    using pos by simp
  ultimately show ?thesis
    unfolding mod_interval_def by blast
qed

lemma mod_interval_lower: "lo \<notin> mod_interval lo hi"
proof
  assume "lo \<in> mod_interval lo hi"
  then obtain k where k: "k < unat (hi - lo)" and eq: "lo = lo + 1 + word_of_nat k"
    unfolding mod_interval_def by auto
  have kk: "Suc k < 2 ^ 64"
    using k unsigned_less [of "hi - lo", where ?'a = nat] by simp
  from eq have "(word_of_nat (Suc k) :: index_t) = 0"
    by simp
  then have "unat (word_of_nat (Suc k) :: index_t) = 0"
    by simp
  then show False
    using kk by (simp add: unat_of_nat del: of_nat_Suc)
qed

text \<open>
  C1. For all 64-bit indices \<open>old\<close>, \<open>new\<close> and every threshold \<open>T\<close> with
  \<open>new - old \<le> 2^63\<close>, the unsigned test \<open>new - T - 1 < new - old\<close> holds exactly when
  \<open>T\<close> lies in the interval \<open>(old - 1, new - 1]\<close> modulo \<open>2^64\<close>. The upper end
  \<open>new - 1\<close> counts as crossed (when there was an advance at all), the lower end
  \<open>old - 1\<close> does not. \<^verbatim>\<open>cons_notify\<close>, with \<open>old\<close> the published consumer index,
  \<open>new = cons_ci\<close> and \<open>T = prod_event\<close>, publishes \<open>new\<close> and signals the producer's
  semaphore exactly when \<open>T\<close> is in that interval; \<^verbatim>\<open>prod_notify\<close> does the same
  with the producer's index, \<open>cons_event\<close> and the consumer's semaphore.
\<close>

theorem threshold_crossing_test:
  fixes old new T :: index_t
  assumes "unat (new - old) \<le> 2 ^ 63"
  shows "((new - T - 1 < new - old) = (T \<in> mod_interval (old - 1) (new - 1)))
    \<and> (new \<noteq> old \<longrightarrow> new - (new - 1) - 1 < new - old)
    \<and> \<not> (new - (old - 1) - 1 < new - old)
    \<and> (\<forall>q :: 'a SPSCQueue. cons_index q = old \<and> cons_ci q = new \<and> prod_event q = T \<longrightarrow>
          cons_notify q =
            (if T \<in> mod_interval (old - 1) (new - 1)
             then q\<lparr>cons_index := new, prod_sem := True, cons_not := cons_not q + 1\<rparr>
             else q\<lparr>cons_index := new\<rparr>))
    \<and> (\<forall>q :: 'a SPSCQueue. prod_index q = old \<and> prod_pi q = new \<and> cons_event q = T \<longrightarrow>
          prod_notify q =
            (if T \<in> mod_interval (old - 1) (new - 1)
             then q\<lparr>prod_index := new, cons_sem := True, prod_not := prod_not q + 1\<rparr>
             else q\<lparr>prod_index := new\<rparr>))"
proof (intro conjI)
  show "(new - T - 1 < new - old) = (T \<in> mod_interval (old - 1) (new - 1))"
    by (rule crossing_test_interval)
  show "new \<noteq> old \<longrightarrow> new - (new - 1) - 1 < new - old"
    by (simp add: word_greater_zero_iff)
  show "\<not> (new - (old - 1) - 1 < new - old)"
    by simp
  show "\<forall>q :: 'a SPSCQueue. cons_index q = old \<and> cons_ci q = new \<and> prod_event q = T \<longrightarrow>
          cons_notify q =
            (if T \<in> mod_interval (old - 1) (new - 1)
             then q\<lparr>cons_index := new, prod_sem := True, cons_not := cons_not q + 1\<rparr>
             else q\<lparr>cons_index := new\<rparr>)"
    by (auto simp: cons_notify_def Let_def Semaphore_signal_def crossing_test_interval)
  show "\<forall>q :: 'a SPSCQueue. prod_index q = old \<and> prod_pi q = new \<and> cons_event q = T \<longrightarrow>
          prod_notify q =
            (if T \<in> mod_interval (old - 1) (new - 1)
             then q\<lparr>prod_index := new, cons_sem := True, prod_not := prod_not q + 1\<rparr>
             else q\<lparr>prod_index := new\<rparr>)"
    by (auto simp: prod_notify_def Let_def Semaphore_signal_def crossing_test_interval)
qed

theorem threshold_crossing_test_witness:
  "unat ((5::index_t) - 3) \<le> 2 ^ 63
   \<and> (4::index_t) \<in> mod_interval (3 - 1) (5 - 1)
   \<and> (2::index_t) \<notin> mod_interval (3 - 1) (5 - 1)
   \<and> cons_notify \<lparr>ring_capacity = 4, queue_capacity = 4, ring = [0, 0, 0, 0::nat],
        prod_index = 7, prod_event = 4, prod_ci = 3, prod_pi = 7,
        cons_index = 3, cons_event = 0, cons_ci = 5, cons_pi = 7,
        prod_sem = False, cons_sem = False, cons_not = 0, prod_not = 0\<rparr>
      = \<lparr>ring_capacity = 4, queue_capacity = 4, ring = [0, 0, 0, 0::nat],
        prod_index = 7, prod_event = 4, prod_ci = 3, prod_pi = 7,
        cons_index = 5, cons_event = 0, cons_ci = 5, cons_pi = 7,
        prod_sem = True, cons_sem = False, cons_not = 1, prod_not = 0\<rparr>"
proof -
  have h: "unat ((5::index_t) - 3) \<le> 2 ^ 63"
    by simp
  have a: "(4::index_t) \<in> mod_interval (3 - 1) (5 - 1)"
    using threshold_crossing_test [OF h, of 4, where ?'a = nat] by simp
  have b: "(2::index_t) \<notin> mod_interval (3 - 1) (5 - 1)"
    using threshold_crossing_test [OF h, of 2, where ?'a = nat] by simp
  show ?thesis
    using h a b threshold_crossing_test [OF h, of 4, where ?'a = nat] by simp
qed

section \<open>Construction and ring sizing\<close>

lemma unat_two_power: "n < 64 \<Longrightarrow> unat ((2::64 word) ^ n) = 2 ^ n"
proof -
  assume n: "n < 64"
  have "(2::64 word) ^ n = word_of_nat (2 ^ n)"
    by simp
  moreover have "(2::nat) ^ n < 2 ^ 64"
    using n by (intro power_strict_increasing) auto
  ultimately show ?thesis
    by (simp add: unat_of_nat del: of_nat_power)
qed

lemma and_mask_64: "(w::64 word) AND (2 ^ n - 1) = take_bit n w"
  by (simp add: take_bit_eq_mask mask_eq_decr_exp)

lemma unat_and_mask: "unat ((w::64 word) AND (2 ^ n - 1)) = unat w mod 2 ^ n"
proof -
  have "unat (take_bit n w) = take_bit n (unat w)"
    by (rule unsigned_take_bit_eq)
  then show ?thesis
    by (simp only: and_mask_64 take_bit_eq_mod)
qed

lemma shl_1: "shl 1 n = 2 ^ (n mod 64)"
  by (simp add: shl_def)

lemma unat_max_size: "unat max_size = 2 ^ 63"
  by (simp add: max_size_def)

lemma shl_1_le_max_size: "shl 1 n \<le> max_size"
proof -
  have "n mod 64 < 64"
    by simp
  then have "n mod 64 \<le> 63"
    by linarith
  then have "(2::nat) ^ (n mod 64) \<le> 2 ^ 63"
    by (intro power_increasing) auto
  then show ?thesis
    by (simp add: shl_1 word_le_nat_alt unat_two_power unat_max_size)
qed

lemma shl_1_power: "\<exists>e<64. shl 1 n = 2 ^ e"
  by (rule exI [of _ "n mod 64"]) (simp add: shl_1)

lemma new_SPSCQueue_eq:
  "new_SPSCQueue pf c =
     (if unat (shl 1 (log2_ceil pf c)) < 2 ^ 63 \<and> can_alloc pf (unat (shl 1 (log2_ceil pf c)))
      then Inr \<lparr>ring_capacity = shl 1 (log2_ceil pf c), queue_capacity = c,
             ring = map (fresh pf) [0..<unat (shl 1 (log2_ceil pf c))],
             prod_index = 0, prod_event = 0, prod_ci = 0, prod_pi = 0,
             cons_index = 0, cons_event = 0, cons_ci = 0, cons_pi = 0,
             prod_sem = False, cons_sem = False, cons_not = 0, prod_not = 0\<rparr>
      else Inl Bad_alloc)"
  by (simp add: new_SPSCQueue_def new_array_def Let_def shl_1_le_max_size)

lemma new_SPSCQueue_Inr:
  assumes "new_SPSCQueue pf c = Inr q"
  shows "q = \<lparr>ring_capacity = shl 1 (log2_ceil pf c), queue_capacity = c,
      ring = map (fresh pf) [0..<unat (shl 1 (log2_ceil pf c))],
      prod_index = 0, prod_event = 0, prod_ci = 0, prod_pi = 0,
      cons_index = 0, cons_event = 0, cons_ci = 0, cons_pi = 0,
      prod_sem = False, cons_sem = False, cons_not = 0, prod_not = 0\<rparr>"
  using assms by (simp add: new_SPSCQueue_eq split: if_splits)

lemma to_double_exact: "n < 2 ^ 53 \<Longrightarrow> to_double n = n"
proof -
  assume "n < 2 ^ 53"
  then have "floorlog 2 n \<le> 53"
    by (simp add: floorlog_le_iff)
  then show ?thesis
    by (simp add: to_double_def)
qed

lemma floorlog_2_53_1: "floorlog 2 (2 ^ 53 + 1) = 54"
proof -
  have "floorlog 2 (2 ^ 53 + 1) \<le> 54"
    by (simp add: floorlog_le_iff)
  moreover have "Suc 53 \<le> floorlog 2 (2 ^ 53 + 1)"
    by (rule floorlog_ge_SucI) simp_all
  ultimately show ?thesis
    by simp
qed

lemma to_double_2_53_1: "to_double (2 ^ 53 + 1) = 2 ^ 53"
  unfolding to_double_def floorlog_2_53_1 by (simp add: Let_def)

lemma log2_ceil_exact:
  assumes "c \<noteq> 0" "unat c < 2 ^ 53"
    and "\<lceil>log2 pf (unat c)\<rceil> = \<lceil>log 2 (real (unat c))\<rceil>"
  shows "log2_ceil pf c = ceillog2 (unat c)"
proof -
  have "0 < unat c"
    using assms(1) by (simp add: unat_gt_0)
  then show ?thesis
    using assms by (simp add: log2_ceil_def to_double_exact ceillog2_def)
qed

text \<open>
  Where the conversion to \<^verbatim>\<open>double\<close> is exact and \<^verbatim>\<open>log2\<close> lands on the side of the
  whole number where the real logarithm lies, the ring of a constructed queue has
  \<open>N = 2 ^ \<lceil>log 2 c\<rceil>\<close> slots, the smallest power of two that is at least the requested
  capacity \<open>c\<close>, and \<^verbatim>\<open>normalize_index\<close> maps a counter \<open>i\<close> to \<open>i AND (N - 1)\<close>, which
  is \<open>i mod N\<close> and a position inside the ring.
\<close>

lemma ring_sizing_where_exact:
  assumes "1 \<le> unat c" and "unat c < 2 ^ 53"
    and "\<lceil>log2 pf (unat c)\<rceil> = \<lceil>log 2 (real (unat c))\<rceil>"
    and "new_SPSCQueue pf c = Inr q"
  shows "queue_capacity q = c
           \<and> unat (ring_capacity q) = 2 ^ ceillog2 (unat c)
           \<and> length (ring q) = unat (ring_capacity q)
           \<and> unat c \<le> unat (ring_capacity q)
           \<and> (\<forall>e. unat c \<le> 2 ^ e \<longrightarrow> unat (ring_capacity q) \<le> 2 ^ e)
           \<and> (\<forall>i. normalize_index q i = i AND (ring_capacity q - 1)
                  \<and> unat (normalize_index q i) = unat i mod unat (ring_capacity q)
                  \<and> unat (normalize_index q i) < length (ring q))"
proof -
  let ?e = "ceillog2 (unat c)"
  have c0: "c \<noteq> 0"
    using assms(1) by auto
  have pos: "0 < unat c"
    using assms(1) by simp
  have l: "log2_ceil pf c = ?e"
    using c0 assms(2,3) by (rule log2_ceil_exact)
  have "unat c \<le> 2 ^ 53"
    using assms(2) by simp
  then have e53: "?e \<le> 53"
    using pos by (simp add: ceillog2_le_iff)
  then have rc: "shl 1 (log2_ceil pf c) = 2 ^ ?e"
    by (simp add: shl_1 l)
  have N: "unat (shl 1 (log2_ceil pf c)) = 2 ^ ?e"
    using e53 by (simp add: rc unat_two_power)
  note q = new_SPSCQueue_Inr [OF assms(4)]
  have least: "\<forall>e. unat c \<le> 2 ^ e \<longrightarrow> (2::nat) ^ ?e \<le> 2 ^ e"
    using pos by (auto simp: ceillog2_le_iff [symmetric] intro: power_increasing)
  have norm: "\<forall>i. normalize_index q i = i AND (ring_capacity q - 1)
                  \<and> unat (normalize_index q i) = unat i mod unat (ring_capacity q)
                  \<and> unat (normalize_index q i) < length (ring q)"
    by (simp add: normalize_index_def) (simp add: q rc unat_and_mask N [unfolded rc])
  have "queue_capacity q = c" "length (ring q) = unat (ring_capacity q)"
    by (simp_all add: q)
  moreover have "unat (ring_capacity q) = 2 ^ ?e"
    by (simp add: q N)
  moreover have "unat c \<le> unat (ring_capacity q)"
    by (simp add: q N le_two_power_ceillog2)
  moreover have "\<forall>e. unat c \<le> 2 ^ e \<longrightarrow> unat (ring_capacity q) \<le> 2 ^ e"
    using least by (simp add: q N)
  ultimately show ?thesis
    using norm by blast
qed

text \<open>
  C5, where the code departs from it. The requested capacity \<open>2^53 + 1\<close> lies within
  the range of the claim, and the smallest power of two that is at least as large is
  \<open>2^54\<close>. The constructor converts the capacity to \<^verbatim>\<open>double\<close>, which has no place for
  the last bit: the nearest doubles are \<open>2^53\<close> and \<open>2^53 + 2\<close>, and the tie goes to
  \<open>2^53\<close>. With a \<^verbatim>\<open>log2\<close> that is exact at this power of two the constructor asks for
  an array of \<open>2^53\<close> elements. If the allocator refuses, construction ends in
  \<^verbatim>\<open>bad_alloc\<close>; if it grants the array, the queue has a ring of \<open>2^53\<close> slots under a
  logical capacity of \<open>2^53 + 1\<close>, and two counters \<open>2^53\<close> apart, which the capacity
  allows to be in the queue together, name the same slot.
\<close>

theorem ring_smaller_than_capacity:
  assumes "log2 pf (2 ^ 53) = 53"
  shows "new_SPSCQueue pf (2 ^ 53 + 1) =
      (if can_alloc pf (2 ^ 53)
       then Inr \<lparr>ring_capacity = 2 ^ 53, queue_capacity = 2 ^ 53 + 1,
              ring = map (fresh pf) [0..<2 ^ 53],
              prod_index = 0, prod_event = 0, prod_ci = 0, prod_pi = 0,
              cons_index = 0, cons_event = 0, cons_ci = 0, cons_pi = 0,
              prod_sem = False, cons_sem = False, cons_not = 0, prod_not = 0\<rparr>
       else Inl Bad_alloc)
    \<and> (\<forall>q. new_SPSCQueue pf (2 ^ 53 + 1) = Inr q \<longrightarrow>
          unat (ring_capacity q) = 2 ^ 53
          \<and> length (ring q) = 2 ^ 53
          \<and> unat (queue_capacity q) = 2 ^ 53 + 1
          \<and> ring_capacity q < queue_capacity q
          \<and> (\<forall>i. normalize_index q (i + 2 ^ 53) = normalize_index q i))"
proof -
  have u: "unat ((2 :: size_t) ^ 53 + 1) = 2 ^ 53 + 1"
    by simp
  have n0: "(2 :: size_t) ^ 53 + 1 \<noteq> 0"
    by simp
  have l: "log2_ceil pf (2 ^ 53 + 1) = 53"
    unfolding log2_ceil_def u to_double_2_53_1 using n0 assms by simp
  have rc: "shl 1 (log2_ceil pf (2 ^ 53 + 1)) = 2 ^ 53"
    unfolding l by (simp add: shl_1)
  have N: "unat ((2 :: size_t) ^ 53) = 2 ^ 53"
    by (rule unat_two_power) simp
  have lt: "(2 :: nat) ^ 53 < 2 ^ 63"
    by simp
  have new: "new_SPSCQueue pf (2 ^ 53 + 1) =
      (if can_alloc pf (2 ^ 53)
       then Inr \<lparr>ring_capacity = 2 ^ 53, queue_capacity = 2 ^ 53 + 1,
              ring = map (fresh pf) [0..<2 ^ 53],
              prod_index = 0, prod_event = 0, prod_ci = 0, prod_pi = 0,
              cons_index = 0, cons_event = 0, cons_ci = 0, cons_pi = 0,
              prod_sem = False, cons_sem = False, cons_not = 0, prod_not = 0\<rparr>
       else Inl Bad_alloc)"
    unfolding new_SPSCQueue_eq rc N using lt by (simp only: simp_thms)
  have wrap: "normalize_index q (i + 2 ^ 53) = normalize_index q i"
    if "ring_capacity q = 2 ^ 53" for q :: "'a SPSCQueue" and i
  proof -
    have "unat (normalize_index q (i + 2 ^ 53)) = unat (i + 2 ^ 53) mod 2 ^ 53"
      by (simp only: normalize_index_def that unat_and_mask)
    also have "unat (i + 2 ^ 53) = (unat i + 2 ^ 53) mod 2 ^ 64"
      by (simp only: unat_word_ariths N) simp
    also have "(unat i + 2 ^ 53) mod 2 ^ 64 mod 2 ^ 53 = (unat i + (2::nat) ^ 53) mod 2 ^ 53"
      by (rule mod_mod_cancel) (simp add: le_imp_power_dvd)
    also have "\<dots> = unat i mod 2 ^ 53"
      by simp
    also have "\<dots> = unat (normalize_index q i)"
      by (simp only: normalize_index_def that unat_and_mask)
    finally show ?thesis
      by (simp only: word_unat_eq_iff)
  qed
  have "\<forall>q. new_SPSCQueue pf (2 ^ 53 + 1) = Inr q \<longrightarrow>
          unat (ring_capacity q) = 2 ^ 53
          \<and> length (ring q) = 2 ^ 53
          \<and> unat (queue_capacity q) = 2 ^ 53 + 1
          \<and> ring_capacity q < queue_capacity q
          \<and> (\<forall>i. normalize_index q (i + 2 ^ 53) = normalize_index q i)"
  proof (intro allI impI)
    fix q
    assume "new_SPSCQueue pf (2 ^ 53 + 1) = Inr q"
    from new_SPSCQueue_Inr [OF this]
    have q: "ring_capacity q = 2 ^ 53" "queue_capacity q = 2 ^ 53 + 1"
      "length (ring q) = unat ((2 :: size_t) ^ 53)"
      by (simp_all only: rc SPSCQueue.simps length_map length_upt diff_zero)
    have "ring_capacity q < queue_capacity q"
      unfolding q word_less_nat_alt N u by simp
    then show "unat (ring_capacity q) = 2 ^ 53
          \<and> length (ring q) = 2 ^ 53
          \<and> unat (queue_capacity q) = 2 ^ 53 + 1
          \<and> ring_capacity q < queue_capacity q
          \<and> (\<forall>i. normalize_index q (i + 2 ^ 53) = normalize_index q i)"
      using wrap [OF q(1)] by (simp only: q N u simp_thms)
  qed
  with new show ?thesis
    by blast
qed

theorem ring_smaller_than_capacity_witness:
  "(let pf = \<lparr>log2 = \<lambda>d. log 2 (real d), can_alloc = \<lambda>n. True, fresh = \<lambda>i. 0 :: nat\<rparr>
    in log2 pf (2 ^ 53) = 53
       \<and> (\<exists>q. new_SPSCQueue pf (2 ^ 53 + 1) = Inr q
              \<and> unat (ring_capacity q) = 2 ^ 53
              \<and> unat (queue_capacity q) = 2 ^ 53 + 1
              \<and> ring_capacity q < queue_capacity q
              \<and> normalize_index q (0 + 2 ^ 53) = normalize_index q 0))"
proof -
  let ?pf = "\<lparr>log2 = \<lambda>d. log 2 (real d), can_alloc = \<lambda>n. True, fresh = \<lambda>i. 0 :: nat\<rparr>"
  have "log 2 ((2 :: real) ^ 53) = real 53"
    by (rule log_pow_cancel) simp_all
  then have h: "log2 ?pf (2 ^ 53) = 53"
    by simp
  note main = ring_smaller_than_capacity [OF h]
  from main have "\<exists>q. new_SPSCQueue ?pf (2 ^ 53 + 1) = Inr q"
    by simp
  then obtain q where q: "new_SPSCQueue ?pf (2 ^ 53 + 1) = Inr q"
    by blast
  from main have "\<forall>q. new_SPSCQueue ?pf (2 ^ 53 + 1) = Inr q \<longrightarrow>
          unat (ring_capacity q) = 2 ^ 53
          \<and> length (ring q) = 2 ^ 53
          \<and> unat (queue_capacity q) = 2 ^ 53 + 1
          \<and> ring_capacity q < queue_capacity q
          \<and> (\<forall>i. normalize_index q (i + 2 ^ 53) = normalize_index q i)"
    by (rule conjunct2)
  with q have "unat (ring_capacity q) = 2 ^ 53 \<and> unat (queue_capacity q) = 2 ^ 53 + 1
      \<and> ring_capacity q < queue_capacity q
      \<and> normalize_index q (0 + 2 ^ 53) = normalize_index q 0"
    by blast
  with q h show ?thesis
    unfolding Let_def by blast
qed

text \<open>
  C4, as the code has it, for a requested capacity of zero. The constructor does not
  look at the requested capacity: it computes a ring of one slot and asks the allocator
  for it. If the allocator grants the slot, the assertion on the ring size holds and a
  queue object of logical capacity zero is produced; if not, construction ends in
  \<^verbatim>\<open>bad_alloc\<close>. No other outcome exists, and none of them is a condition on the
  argument.
\<close>

theorem zero_capacity_not_rejected:
  "new_SPSCQueue pf 0 =
     (if can_alloc pf 1
      then Inr \<lparr>ring_capacity = 1, queue_capacity = 0, ring = [fresh pf 0],
             prod_index = 0, prod_event = 0, prod_ci = 0, prod_pi = 0,
             cons_index = 0, cons_event = 0, cons_ci = 0, cons_pi = 0,
             prod_sem = False, cons_sem = False, cons_not = 0, prod_not = 0\<rparr>
      else Inl Bad_alloc)"
proof -
  have rc: "shl 1 (log2_ceil pf 0) = 1"
    by (simp add: shl_def log2_ceil_def)
  show ?thesis
    unfolding new_SPSCQueue_eq rc by simp
qed

theorem zero_capacity_not_rejected_witness:
  "new_SPSCQueue \<lparr>log2 = \<lambda>d. log 2 (real d), can_alloc = \<lambda>n. n \<le> 1024, fresh = \<lambda>i. 7 :: nat\<rparr> 0
     = Inr \<lparr>ring_capacity = 1, queue_capacity = 0, ring = [7],
         prod_index = 0, prod_event = 0, prod_ci = 0, prod_pi = 0,
         cons_index = 0, cons_event = 0, cons_ci = 0, cons_pi = 0,
         prod_sem = False, cons_sem = False, cons_not = 0, prod_not = 0\<rparr>
   \<and> new_SPSCQueue \<lparr>log2 = \<lambda>d. log 2 (real d), can_alloc = \<lambda>n. False, fresh = \<lambda>i. 7 :: nat\<rparr> 0
     = Inl Bad_alloc"
  using zero_capacity_not_rejected
      [of "\<lparr>log2 = \<lambda>d. log 2 (real d), can_alloc = \<lambda>n. n \<le> 1024, fresh = \<lambda>i. 7 :: nat\<rparr>"]
    zero_capacity_not_rejected
      [of "\<lparr>log2 = \<lambda>d. log 2 (real d), can_alloc = \<lambda>n. False, fresh = \<lambda>i. 7 :: nat\<rparr>"]
  by simp

text \<open>
  The claim C4 as stated fails: with a requested capacity of zero, and an allocator that
  grants one slot, the constructor returns a queue object, of logical capacity zero.
\<close>

theorem zero_capacity_constructs:
  "new_SPSCQueue \<lparr>log2 = \<lambda>d. log 2 (real d), can_alloc = \<lambda>n. True, fresh = \<lambda>i. 0 :: nat\<rparr> 0
     = Inr \<lparr>ring_capacity = 1, queue_capacity = 0, ring = [0],
         prod_index = 0, prod_event = 0, prod_ci = 0, prod_pi = 0,
         cons_index = 0, cons_event = 0, cons_ci = 0, cons_pi = 0,
         prod_sem = False, cons_sem = False, cons_not = 0, prod_not = 0\<rparr>"
  by (simp add: new_SPSCQueue_def new_array_def log2_ceil_def shl_def max_size_def)

section \<open>Slots of the ring\<close>

lemma mod_add_inj:
  fixes A i j N :: nat
  assumes "(A + i) mod N = (A + j) mod N" "i < N" "j < N"
  shows "i = j"
proof -
  have aux: "x = y" if "x \<le> y" "(A + x) mod N = (A + y) mod N" "y < N" for x y
  proof -
    have "N dvd (A + y) - (A + x)"
      using mod_eq_dvd_iff_nat [of "A + x" "A + y" N] that by simp
    then have "N dvd y - x"
      by simp
    moreover have "y - x < N"
      using that by simp
    ultimately have "y - x = 0"
      by (meson dvd_imp_le gr_zeroI not_less)
    with that show ?thesis
      by simp
  qed
  show ?thesis
  proof (cases "i \<le> j")
    case True
    then show ?thesis using aux [of i j] assms by simp
  next
    case False
    then show ?thesis using aux [of j i] assms by simp
  qed
qed

lemma unat_normalize_index:
  assumes "ring_capacity q = 2 ^ e"
  shows "unat (normalize_index q i) = unat i mod 2 ^ e"
  by (simp add: normalize_index_def assms unat_and_mask)

lemma unat_normalize_index_add:
  assumes "ring_capacity q = 2 ^ e" "e < 64"
  shows "unat (normalize_index q (a + word_of_nat j)) = (unat a + j) mod 2 ^ e"
proof -
  have dvd: "(2::nat) ^ e dvd 2 ^ 64"
    by (rule le_imp_power_dvd) (use assms(2) in simp)
  have "unat (a + word_of_nat j) = (unat a + j) mod 2 ^ 64"
    by (simp add: unat_word_ariths unat_of_nat mod_simps)
  then show ?thesis
    using dvd by (simp add: unat_normalize_index [OF assms(1)] mod_mod_cancel)
qed

lemma normalize_index_lt:
  assumes "ring_ok q"
  shows "unat (normalize_index q i) < length (ring q)"
proof -
  from assms obtain e where e: "e < 64" "ring_capacity q = 2 ^ e"
    and len: "length (ring q) = unat (ring_capacity q)"
    by (auto simp: ring_ok_def)
  show ?thesis
    by (simp add: len unat_normalize_index [OF e(2)]) (simp add: e unat_two_power)
qed

lemma normalize_index_inj:
  assumes "ring_ok q" "i < length (ring q)" "j < length (ring q)"
    and "normalize_index q (a + word_of_nat i) = normalize_index q (a + word_of_nat j)"
  shows "i = j"
proof -
  from assms(1) obtain e where e: "e < 64" "ring_capacity q = 2 ^ e"
    and len: "length (ring q) = unat (ring_capacity q)"
    by (auto simp: ring_ok_def)
  have N: "length (ring q) = 2 ^ e"
    by (simp add: len e unat_two_power)
  from assms(4) have "(unat a + i) mod 2 ^ e = (unat a + j) mod 2 ^ e"
    by (simp add: unat_normalize_index_add [OF e(2) e(1), symmetric])
  then show ?thesis
    using assms(2,3) unfolding N by (rule mod_add_inj)
qed

section \<open>The calls of one thread\<close>

declare prod_wait_space.simps [simp del]
declare cons_wait_data.simps [simp del]
declare pop_back_loop.simps [simp del]

lemma prod_notify_fields [simp]:
  "ring_capacity (prod_notify q) = ring_capacity q"
  "queue_capacity (prod_notify q) = queue_capacity q"
  "ring (prod_notify q) = ring q"
  "prod_index (prod_notify q) = prod_pi q"
  "prod_event (prod_notify q) = prod_event q"
  "prod_ci (prod_notify q) = prod_ci q"
  "prod_pi (prod_notify q) = prod_pi q"
  "cons_index (prod_notify q) = cons_index q"
  "cons_event (prod_notify q) = cons_event q"
  "cons_ci (prod_notify q) = cons_ci q"
  "cons_pi (prod_notify q) = cons_pi q"
  "prod_sem (prod_notify q) = prod_sem q"
  "cons_not (prod_notify q) = cons_not q"
  by (simp_all add: prod_notify_def Let_def)

lemma cons_notify_fields [simp]:
  "ring_capacity (cons_notify q) = ring_capacity q"
  "queue_capacity (cons_notify q) = queue_capacity q"
  "ring (cons_notify q) = ring q"
  "prod_index (cons_notify q) = prod_index q"
  "prod_event (cons_notify q) = prod_event q"
  "prod_ci (cons_notify q) = prod_ci q"
  "prod_pi (cons_notify q) = prod_pi q"
  "cons_index (cons_notify q) = cons_ci q"
  "cons_event (cons_notify q) = cons_event q"
  "cons_ci (cons_notify q) = cons_ci q"
  "cons_pi (cons_notify q) = cons_pi q"
  "cons_sem (cons_notify q) = cons_sem q"
  "prod_not (cons_notify q) = prod_not q"
  by (simp_all add: cons_notify_def Let_def)

lemma prod_wait_space_returns:
  assumes "prod_pi q - cons_index q \<le> queue_capacity q - want"
  shows "prod_wait_space want q =
    Returns (cons_index q + queue_capacity q - prod_pi q) (q\<lparr>prod_ci := cons_index q\<rparr>)"
  using assms by (subst prod_wait_space.simps) (simp add: prod_has_space_def)

lemma prod_slow_fields [simp]:
  "ring_capacity (prod_slow q) = ring_capacity q"
  "queue_capacity (prod_slow q) = queue_capacity q"
  "ring (prod_slow q) = ring q"
  "prod_index (prod_slow q) = prod_pi q"
  "prod_event (prod_slow q) = cons_index q + (prod_pi q - cons_index q) div 4"
  "prod_ci (prod_slow q) = cons_index q"
  "prod_pi (prod_slow q) = prod_pi q"
  "cons_index (prod_slow q) = cons_index q"
  "cons_event (prod_slow q) = cons_event q"
  "cons_ci (prod_slow q) = cons_ci q"
  "cons_pi (prod_slow q) = cons_pi q"
  "prod_sem (prod_slow q) = prod_sem q"
  "cons_not (prod_slow q) = cons_not q"
  by (simp_all add: prod_slow_def)

lemma prod_wait_space_blocked:
  assumes "\<not> prod_pi q - cons_index q \<le> queue_capacity q - want"
  shows "prod_wait_space want q =
    (if prod_sem q
     then prod_wait_space want ((prod_slow q)\<lparr>prod_sem := False\<rparr>)
     else Parks (prod_slow q))"
proof -
  have eq: "(prod_slow q)\<lparr>prod_ci := cons_index q\<rparr> = prod_slow q"
    by (simp add: prod_slow_def prod_notify_def Let_def)
  have eq2: "(prod_slow q)\<lparr>prod_sem := False, prod_ci := cons_index q\<rparr>
      = (prod_slow q)\<lparr>prod_sem := False\<rparr>"
    by (simp add: prod_slow_def prod_notify_def Let_def)
  show ?thesis
    using assms
    by (subst prod_wait_space.simps)
      (simp add: prod_has_space_def Semaphore_wait_def prod_slow_def [symmetric] Let_def eq eq2)
qed

lemma prod_wait_space_parks:
  assumes "\<not> prod_pi q - cons_index q \<le> queue_capacity q - want"
  shows "\<exists>q'. prod_wait_space want q = Parks q'"
proof (cases "prod_sem q")
  case False
  then show ?thesis
    using assms by (simp add: prod_wait_space_blocked)
next
  case True
  let ?q = "(prod_slow q)\<lparr>prod_sem := False\<rparr>"
  have "\<not> prod_pi ?q - cons_index ?q \<le> queue_capacity ?q - want"
    using assms by (simp add: prod_slow_def)
  then have "prod_wait_space want ?q = Parks (prod_slow ?q)"
    by (simp add: prod_wait_space_blocked)
  then show ?thesis
    using assms True by (simp add: prod_wait_space_blocked)
qed

lemma cons_wait_data_returns:
  assumes "want \<le> prod_index q - cons_ci q"
  shows "cons_wait_data want q =
    Returns (prod_index q - cons_ci q) (q\<lparr>cons_pi := prod_index q\<rparr>)"
  using assms by (subst cons_wait_data.simps) (simp add: cons_has_data_def)

lemma cons_slow_fields [simp]:
  "ring_capacity (cons_slow want q) = ring_capacity q"
  "queue_capacity (cons_slow want q) = queue_capacity q"
  "ring (cons_slow want q) = ring q"
  "prod_index (cons_slow want q) = prod_index q"
  "prod_event (cons_slow want q) = prod_event q"
  "prod_ci (cons_slow want q) = prod_ci q"
  "prod_pi (cons_slow want q) = prod_pi q"
  "cons_index (cons_slow want q) = cons_ci q"
  "cons_event (cons_slow want q) = cons_ci q + want - 1"
  "cons_ci (cons_slow want q) = cons_ci q"
  "cons_pi (cons_slow want q) = prod_index q"
  "cons_sem (cons_slow want q) = cons_sem q"
  "prod_not (cons_slow want q) = prod_not q"
  by (simp_all add: cons_slow_def)

lemma cons_wait_data_blocked:
  assumes "\<not> want \<le> prod_index q - cons_ci q"
  shows "cons_wait_data want q =
    (if cons_sem q
     then cons_wait_data want ((cons_slow want q)\<lparr>cons_sem := False\<rparr>)
     else Parks (cons_slow want q))"
proof -
  have eq: "(cons_slow want q)\<lparr>cons_pi := prod_index q\<rparr> = cons_slow want q"
    by (simp add: cons_slow_def cons_notify_def Let_def)
  show ?thesis
    using assms
    by (subst cons_wait_data.simps)
      (simp add: cons_has_data_def Semaphore_wait_def cons_slow_def [symmetric] Let_def eq)
qed

lemma cons_wait_data_parks:
  assumes "\<not> want \<le> prod_index q - cons_ci q"
  shows "\<exists>q'. cons_wait_data want q = Parks q'"
proof (cases "cons_sem q")
  case False
  then show ?thesis
    using assms by (simp add: cons_wait_data_blocked)
next
  case True
  let ?q = "(cons_slow want q)\<lparr>cons_sem := False\<rparr>"
  have "\<not> want \<le> prod_index ?q - cons_ci ?q"
    using assms by (simp add: cons_slow_def)
  then have "cons_wait_data want ?q = Parks (cons_slow want ?q)"
    by (simp add: cons_wait_data_blocked)
  then show ?thesis
    using assms True by (simp add: cons_wait_data_blocked)
qed

lemma push_front_returns:
  assumes "prod_pi q - cons_index q \<le> queue_capacity q - 1"
  shows "push_front x f q = Returns True
    (prod_advance 1 f
      (q\<lparr>prod_ci := cons_index q,
         ring := (ring q)[unat (normalize_index q (prod_pi q)) := x]\<rparr>))"
  using assms
  by (simp add: push_front_def push_front_forward_def prod_wait_space_returns
      normalize_index_def)

lemma pop_back_returns:
  assumes "1 \<le> prod_index q - cons_ci q"
  shows "pop_back moved q = Returns (True, slot q (cons_ci q))
    (cons_advance 1
      (q\<lparr>cons_pi := prod_index q,
         ring := (ring q)[unat (normalize_index q (cons_ci q)) := moved (slot q (cons_ci q))]\<rparr>))"
  using assms
  by (simp add: pop_back_def cons_wait_data_returns normalize_index_def slot_def Let_def)

lemma unat_word_Suc:
  fixes i num :: index_t
  assumes "i < num"
  shows "unat (i + 1) = unat i + 1" and "i + 1 \<le> num"
proof -
  have lt: "unat i < unat num"
    using assms by (simp add: word_less_nat_alt)
  moreover have "unat num < 2 ^ 64"
    using unsigned_less [of num, where ?'a = nat] by simp
  ultimately have "unat i + unat (1 :: index_t) < 2 ^ LENGTH(64)"
    by simp
  then show "unat (i + 1) = unat i + 1"
    by (simp add: unat_add_lem [THEN iffD1])
  with lt show "i + 1 \<le> num"
    by (simp add: word_le_nat_alt)
qed

lemma slot_ring_update:
  assumes "ring_ok q" "i < length (ring q)" "j < length (ring q)" "i \<noteq> j"
  shows "slot (q\<lparr>ring := (ring q)[unat (normalize_index q (a + word_of_nat i)) := y]\<rparr>)
            (a + word_of_nat j) = slot q (a + word_of_nat j)"
proof -
  have "normalize_index q (a + word_of_nat i) \<noteq> normalize_index q (a + word_of_nat j)"
    using normalize_index_inj [OF assms(1-3)] assms(4) by blast
  then have "unat (normalize_index q (a + word_of_nat i)) \<noteq> unat (normalize_index q (a + word_of_nat j))"
    by (simp add: word_unat_eq_iff)
  then show ?thesis
    by (simp add: slot_def normalize_index_def)
qed

lemma ring_ok_ring_update [simp]:
  "ring_ok (q\<lparr>ring := (ring q)[k := y]\<rparr>) = ring_ok q"
  by (simp add: ring_ok_def)

lemma pop_back_loop_eq:
  "ring_ok q \<Longrightarrow> i \<le> num \<Longrightarrow> unat num \<le> length (ring q) \<Longrightarrow>
   \<exists>r. pop_back_loop moved num i v q =
         (v @ map (\<lambda>j. slot q (cons_ci q + word_of_nat j)) [unat i..<unat num], q\<lparr>ring := r\<rparr>)
       \<and> length r = length (ring q)"
proof (induction moved num i v q rule: pop_back_loop.induct)
  case (1 moved num i container q)
  show ?case
  proof (cases "i < num")
    case False
    with "1.prems"(2) have "i = num"
      by simp
    then have "pop_back_loop moved num i container q = (container, q\<lparr>ring := ring q\<rparr>)"
      by (subst pop_back_loop.simps) simp
    then show ?thesis
      using \<open>i = num\<close> by (intro exI [of _ "ring q"]) simp
  next
    case True
    define k where "k = unat (normalize_index q (cons_ci q + i))"
    define x where "x = ring q ! k"
    define q' where "q' = q\<lparr>ring := (ring q)[k := moved x]\<rparr>"
    have Suc: "unat (i + 1) = unat i + 1" "i + 1 \<le> num"
      using unat_word_Suc [OF True] by simp_all
    have lt: "unat i < unat num"
      using True by (simp add: word_less_nat_alt)
    have ok': "ring_ok q'" and len': "length (ring q') = length (ring q)"
      and ci': "cons_ci q' = cons_ci q"
      using "1.prems"(1) by (simp_all add: q'_def)
    from "1.IH" [OF True k_def x_def, folded q'_def, OF ok' Suc(2)] "1.prems"(3) len'
    obtain r where r: "pop_back_loop moved num (i + 1) (container @ [x]) q' =
         ((container @ [x]) @ map (\<lambda>j. slot q' (cons_ci q' + word_of_nat j)) [unat (i + 1)..<unat num],
          q'\<lparr>ring := r\<rparr>)" "length r = length (ring q')"
      by auto
    have same: "slot q' (cons_ci q + word_of_nat j) = slot q (cons_ci q + word_of_nat j)"
      if "unat i < j" "j < unat num" for j
    proof -
      have "slot (q\<lparr>ring := (ring q)[unat (normalize_index q (cons_ci q + word_of_nat (unat i))) := moved x]\<rparr>)
          (cons_ci q + word_of_nat j) = slot q (cons_ci q + word_of_nat j)"
        using that lt "1.prems"(3) by (intro slot_ring_update [OF "1.prems"(1)]) auto
      then show ?thesis
        by (simp add: q'_def k_def)
    qed
    have x: "x = slot q (cons_ci q + word_of_nat (unat i))"
      by (simp add: x_def k_def slot_def)
    have "map (\<lambda>j. slot q' (cons_ci q' + word_of_nat j)) [unat (i + 1)..<unat num]
        = map (\<lambda>j. slot q (cons_ci q + word_of_nat j)) [unat (i + 1)..<unat num]"
      using same by (simp add: ci' Suc(1))
    moreover have "[unat i..<unat num] = unat i # [unat (i + 1)..<unat num]"
      using lt by (simp add: Suc(1) upt_conv_Cons)
    moreover have "pop_back_loop moved num i container q
        = pop_back_loop moved num (i + 1) (container @ [x]) q'"
      using True by (subst pop_back_loop.simps) (simp add: k_def x_def q'_def Let_def)
    ultimately have "pop_back_loop moved num i container q =
         (container @ map (\<lambda>j. slot q (cons_ci q + word_of_nat j)) [unat i..<unat num],
          q\<lparr>ring := r\<rparr>)"
      using r(1) x by (simp add: q'_def)
    then show ?thesis
      using r(2) len' by auto
  qed
qed

lemma prod_advance_fields [simp]:
  "ring_capacity (prod_advance n f q) = ring_capacity q"
  "queue_capacity (prod_advance n f q) = queue_capacity q"
  "ring (prod_advance n f q) = ring q"
  "prod_index (prod_advance n f q) = (if f then prod_pi q + n else prod_index q)"
  "prod_event (prod_advance n f q) = prod_event q"
  "prod_ci (prod_advance n f q) = prod_ci q"
  "prod_pi (prod_advance n f q) = prod_pi q + n"
  "cons_index (prod_advance n f q) = cons_index q"
  "cons_event (prod_advance n f q) = cons_event q"
  "cons_ci (prod_advance n f q) = cons_ci q"
  "cons_pi (prod_advance n f q) = cons_pi q"
  "prod_sem (prod_advance n f q) = prod_sem q"
  "cons_not (prod_advance n f q) = cons_not q"
  by (simp_all add: prod_advance_def Let_def)

lemma cons_advance_fields [simp]:
  "ring_capacity (cons_advance n q) = ring_capacity q"
  "queue_capacity (cons_advance n q) = queue_capacity q"
  "ring (cons_advance n q) = ring q"
  "prod_index (cons_advance n q) = prod_index q"
  "prod_event (cons_advance n q) = prod_event q"
  "prod_ci (cons_advance n q) = prod_ci q"
  "prod_pi (cons_advance n q) = prod_pi q"
  "cons_index (cons_advance n q) = (if cons_pi q = cons_ci q + n then cons_ci q + n else cons_index q)"
  "cons_event (cons_advance n q) = cons_event q"
  "cons_ci (cons_advance n q) = cons_ci q + n"
  "cons_pi (cons_advance n q) = cons_pi q"
  "cons_sem (cons_advance n q) = cons_sem q"
  "prod_not (cons_advance n q) = prod_not q"
  by (simp_all add: cons_advance_def Let_def)

lemma ring_ok_cong:
  "ring_capacity q' = ring_capacity q \<Longrightarrow> length (ring q') = length (ring q) \<Longrightarrow>
   ring_ok q' = ring_ok q"
  by (simp add: ring_ok_def)

lemma slot_cong:
  "ring_capacity q' = ring_capacity q \<Longrightarrow> ring q' = ring q \<Longrightarrow> slot q' i = slot q i"
  by (simp add: slot_def normalize_index_def)

lemma slots_cong:
  "ring_capacity q' = ring_capacity q \<Longrightarrow> ring q' = ring q \<Longrightarrow> slots q' a n = slots q a n"
  by (simp add: slots_def slot_cong [of q' q])

lemma length_slots [simp]: "length (slots q a n) = n"
  by (simp add: slots_def)






lemma unat_capacity_bound: "unat (c :: size_t) < 2 ^ 64"
  using unsigned_less [of c, where ?'a = nat] by simp




lemma pop_back_vec_returns:
  assumes "ring_ok q"
    and "1 \<le> prod_index q - cons_ci q"
    and "unat (prod_index q - cons_ci q) \<le> length (ring q)"
  shows "\<exists>q'. pop_back_vec moved v q =
        Returns (True, v @ slots q (cons_ci q) (unat (prod_index q - cons_ci q))) q'
    \<and> cons_ci q' = prod_index q \<and> cons_index q' = prod_index q \<and> cons_pi q' = prod_index q
    \<and> prod_index q' = prod_index q \<and> prod_pi q' = prod_pi q
    \<and> ring_capacity q' = ring_capacity q \<and> queue_capacity q' = queue_capacity q
    \<and> length (ring q') = length (ring q)"
proof -
  let ?num = "prod_index q - cons_ci q"
  let ?q1 = "q\<lparr>cons_pi := prod_index q\<rparr>"
  have wait: "cons_wait_data 1 q = Returns ?num ?q1"
    using assms(2) by (rule cons_wait_data_returns)
  have "ring_ok ?q1"
    using assms(1) by (simp add: ring_ok_def)
  moreover have "0 \<le> ?num" "unat ?num \<le> length (ring ?q1)"
    using assms(3) by simp_all
  ultimately obtain r where
    r: "pop_back_loop moved ?num 0 v ?q1 =
         (v @ map (\<lambda>j. slot ?q1 (cons_ci ?q1 + word_of_nat j)) [unat (0 :: index_t)..<unat ?num],
          ?q1\<lparr>ring := r\<rparr>)" "length r = length (ring ?q1)"
    using pop_back_loop_eq [of ?q1 0 ?num moved v] by blast
  have "map (\<lambda>j. slot ?q1 (cons_ci ?q1 + word_of_nat j)) [unat (0 :: index_t)..<unat ?num]
      = slots q (cons_ci q) (unat ?num)"
    by (simp add: slots_def slot_def normalize_index_def)
  with r(1) have loop: "pop_back_loop moved ?num 0 v ?q1 =
      (v @ slots q (cons_ci q) (unat ?num), ?q1\<lparr>ring := r\<rparr>)"
    by simp
  let ?q' = "cons_advance ?num (?q1\<lparr>ring := r\<rparr>)"
  have "pop_back_vec moved v q = Returns (True, v @ slots q (cons_ci q) (unat ?num)) ?q'"
    by (simp add: pop_back_vec_def wait loop)
  then show ?thesis
    using r(2) by (intro exI [of _ ?q']) simp
qed



section \<open>The calls and the steps agree\<close>

lemma prod_step_returned:
  "prod_step lab l q = Some (q', P_returned r) \<Longrightarrow> r"
  by (cases lab) (auto simp: Let_def split: site.splits if_splits option.splits prod.splits)

lemma cons_step_returned:
  "cons_step moved lab l q = Some (q', C_returned r x v) \<Longrightarrow> r"
  by (cases lab)
    (auto simp: Let_def cons_wait_done_def split: site.splits if_splits option.splits prod.splits)

lemma exec_returned_true:
  assumes "returned_true s" "exec moved e s = Some s'"
  shows "returned_true s'"
proof (cases e)
  case (Push x f)
  then show ?thesis
    using assms by (cases "producer s") (auto simp: returned_true_def)
next
  case Pop
  then show ?thesis
    using assms by (cases "consumer s") (auto simp: returned_true_def)
next
  case (Pop_vec v)
  then show ?thesis
    using assms by (cases "consumer s") (auto simp: returned_true_def)
next
  case Prod
  then show ?thesis
    using assms
    by (cases "producer s")
      (auto simp: returned_true_def split: option.splits dest: prod_step_returned)
next
  case Cons
  then show ?thesis
    using assms
    by (cases "consumer s")
      (auto simp: returned_true_def split: option.splits dest: cons_step_returned)
qed

lemma run_returned_true:
  "returned_true s \<Longrightarrow> run moved evs s = Some s' \<Longrightarrow> returned_true s'"
proof (induction evs arbitrary: s)
  case Nil
  then show ?case
    by simp
next
  case (Cons e evs)
  then show ?case
    by (auto split: option.splits dest: exec_returned_true)
qed

lemma push_front_steps:
  assumes "prod_pi (queue s) - cons_index (queue s) \<le> queue_capacity (queue s) - 1"
    and "producer s = P_idle \<or> producer s = P_returned r"
    and "push_front x f (queue s) = Returns b q'"
  shows "run moved (Push x f # replicate (if f then 6 else 3) Prod) s
    = Some (s\<lparr>queue := q', producer := P_returned b\<rparr>)"
proof -
  have six: "replicate 6 Prod = [Prod, Prod, Prod, Prod, Prod, Prod]"
    and three: "replicate 3 Prod = [Prod, Prod, Prod]"
    by (simp_all add: numeral_eq_Suc)
  from assms(1,3) have q': "q' = prod_advance 1 f
      ((queue s)\<lparr>prod_ci := cons_index (queue s),
         ring := (ring (queue s))[unat (normalize_index (queue s) (prod_pi (queue s))) := x]\<rparr>)"
    and b: "b"
    by (simp_all add: push_front_returns)
  show ?thesis
    using assms(1,2)
    by (auto simp: six three q' b prod_locals0_def prod_has_space_def prod_advance_def
        prod_notify_def normalize_index_def Let_def)
qed

lemma pop_back_steps:
  assumes "1 \<le> prod_index (queue s) - cons_ci (queue s)"
    and "consumer s = C_idle \<or> consumer s = C_returned r y v"
    and "pop_back moved (queue s) = Returns (b, x) q'"
  shows "run moved (Pop # replicate (if prod_index (queue s) = cons_ci (queue s) + 1 then 6 else 3) Cons) s
    = Some (s\<lparr>queue := q', consumer := C_returned b (Some x) []\<rparr>)"
proof -
  have six: "replicate 6 Cons = [Cons, Cons, Cons, Cons, Cons, Cons]"
    and three: "replicate 3 Cons = [Cons, Cons, Cons]"
    by (simp_all add: numeral_eq_Suc)
  from assms(1,3) have q': "q' = cons_advance 1
      ((queue s)\<lparr>cons_pi := prod_index (queue s),
         ring := (ring (queue s))[unat (normalize_index (queue s) (cons_ci (queue s))) :=
           moved (slot (queue s) (cons_ci (queue s)))]\<rparr>)"
    and b: "b" and x: "x = slot (queue s) (cons_ci (queue s))"
    by (auto simp: pop_back_returns)
  show ?thesis
    using assms(1,2)
    by (auto simp: six three q' b x cons_locals0_def cons_has_data_def cons_advance_def
        cons_notify_def cons_wait_done_def normalize_index_def slot_def Let_def)
qed

lemma pop_back_loop_steps:
  "i \<le> num \<Longrightarrow> consumer s = C_at C_loop l \<Longrightarrow> c_i l = i \<Longrightarrow> c_num l = num \<Longrightarrow>
   c_container l = container \<Longrightarrow> queue s = q \<Longrightarrow>
   run moved (replicate (Suc (unat num - unat i)) Cons) s
     = Some (s\<lparr>queue := snd (pop_back_loop moved num i container q),
               consumer := C_at C_advance
                 (l\<lparr>c_container := fst (pop_back_loop moved num i container q),
                    c_i := num, c_have := num\<rparr>)\<rparr>)"
proof (induction moved num i container q arbitrary: s l rule: pop_back_loop.induct)
  case (1 moved num i container q)
  show ?case
  proof (cases "i < num")
    case False
    with "1.prems"(1) have eq: "i = num"
      by simp
    have "pop_back_loop moved num num container q = (container, q)"
      by (subst pop_back_loop.simps) simp
    then show ?thesis
      using "1.prems" eq by simp
  next
    case True
    define k where "k = unat (normalize_index q (cons_ci q + i))"
    define x where "x = ring q ! k"
    define q' where "q' = q\<lparr>ring := (ring q)[k := moved x]\<rparr>"
    define l' where "l' = l\<lparr>c_container := container @ [x], c_i := i + 1\<rparr>"
    define s' where "s' = s\<lparr>queue := q', consumer := C_at C_loop l'\<rparr>"
    have Suc: "unat (i + 1) = unat i + 1" "i + 1 \<le> num"
      using unat_word_Suc [OF True] by simp_all
    have lt: "unat i < unat num"
      using True by (simp add: word_less_nat_alt)
    have step: "exec moved Cons s = Some s'"
      using "1.prems" True by (simp add: s'_def l'_def q'_def x_def k_def Let_def)
    have unfold: "pop_back_loop moved num i container q
        = pop_back_loop moved num (i + 1) (container @ [x]) q'"
      using True by (subst pop_back_loop.simps) (simp add: k_def x_def q'_def Let_def)
    have "run moved (replicate (Suc (unat num - unat (i + 1))) Cons) s'
        = Some (s'\<lparr>queue := snd (pop_back_loop moved num (i + 1) (container @ [x]) q'),
               consumer := C_at C_advance
                 (l'\<lparr>c_container := fst (pop_back_loop moved num (i + 1) (container @ [x]) q'),
                    c_i := num, c_have := num\<rparr>)\<rparr>)"
      using "1.prems"
      by (intro "1.IH" [OF True k_def x_def, folded q'_def] Suc(2))
        (simp_all add: s'_def l'_def)
    moreover have "Suc (unat num - unat i) = Suc (Suc (unat num - unat (i + 1)))"
      using lt by (simp add: Suc(1))
    ultimately show ?thesis
      using step by (simp add: unfold s'_def l'_def)
  qed
qed

lemma pop_back_vec_steps:
  assumes "1 \<le> prod_index (queue s) - cons_ci (queue s)"
    and "consumer s = C_idle \<or> consumer s = C_returned r y w"
    and "pop_back_vec moved v (queue s) = Returns (b, v') q'"
  shows "run moved (Pop_vec v
      # replicate (unat (prod_index (queue s) - cons_ci (queue s)) + 6) Cons) s
    = Some (s\<lparr>queue := q', consumer := C_returned b None v'\<rparr>)"
proof -
  let ?q = "queue s"
  let ?num = "prod_index ?q - cons_ci ?q"
  let ?q1 = "?q\<lparr>cons_pi := prod_index ?q\<rparr>"
  let ?l = "(cons_locals0 True v)\<lparr>c_num := ?num, c_i := 0\<rparr>"
  let ?s1 = "s\<lparr>consumer := C_at C_loop ?l, queue := ?q1\<rparr>"
  let ?loop = "pop_back_loop moved ?num 0 v ?q1"
  have split: "Pop_vec v # replicate (unat ?num + 6) Cons
      = [Pop_vec v, Cons] @ replicate (Suc (unat ?num - unat (0 :: index_t))) Cons
        @ [Cons, Cons, Cons, Cons]"
    by (simp add: numeral_eq_Suc replicate_app_Cons_same)
  have run_app: "run moved (es @ es') t = (case run moved es t of None \<Rightarrow> None
      | Some t' \<Rightarrow> run moved es' t')" for es es' and t :: "'a system"
    by (induction es arbitrary: t) (auto split: option.splits)
  have first: "run moved [Pop_vec v, Cons] s = Some ?s1"
    using assms(1,2)
    by (auto simp: cons_locals0_def cons_has_data_def cons_wait_done_def Let_def)
  have loop: "run moved (replicate (Suc (unat ?num - unat (0 :: index_t))) Cons) ?s1
      = Some (?s1\<lparr>queue := snd ?loop,
               consumer := C_at C_advance
                 (?l\<lparr>c_container := fst ?loop, c_i := ?num, c_have := ?num\<rparr>)\<rparr>)"
    by (rule pop_back_loop_steps) (simp_all add: cons_locals0_def)
  have ci: "cons_ci (snd (pop_back_loop moved num i c q)) = cons_ci q"
    and cpi: "cons_pi (snd (pop_back_loop moved num i c q)) = cons_pi q"
    for num i c and q :: "'a SPSCQueue"
    by (induction moved num i c q rule: pop_back_loop.induct;
        subst pop_back_loop.simps; simp add: Let_def)+
  from assms(1,3) have res: "b" "v' = fst ?loop" "q' = cons_advance ?num (snd ?loop)"
    by (auto simp: pop_back_vec_def cons_wait_data_returns split_beta)
  have last: "run moved [Cons, Cons, Cons, Cons]
      (?s1\<lparr>queue := snd ?loop,
               consumer := C_at C_advance
                 (?l\<lparr>c_container := fst ?loop, c_i := ?num, c_have := ?num\<rparr>)\<rparr>)
      = Some (s\<lparr>queue := q', consumer := C_returned b None v'\<rparr>)"
    by (simp add: res ci cpi cons_advance_def cons_notify_def cons_locals0_def Let_def)
  show ?thesis
    unfolding split by (simp only: run_app first loop last option.case)
qed

section \<open>Return values and the batch pop\<close>

lemma pop_back_loop_prior:
  "pop_back_loop moved num i (s @ v) q =
     (s @ fst (pop_back_loop moved num i v q), snd (pop_back_loop moved num i v q))"
proof (induction moved num i v q rule: pop_back_loop.induct)
  case (1 moved num i container q)
  show ?case
  proof (cases "i < num")
    case True
    then show ?thesis
      using "1.IH" [OF True refl refl]
      by (subst (1 2 3) pop_back_loop.simps) (simp add: Let_def)
  next
    case False
    then show ?thesis
      by (subst (1 2 3) pop_back_loop.simps) simp
  qed
qed

lemma pop_back_vec_prior:
  "pop_back_vec moved s q =
     (case pop_back_vec moved [] q of
        Parks q' \<Rightarrow> Parks q'
      | Returns (r, ys) q' \<Rightarrow> Returns (r, s @ ys) q')"
proof (cases "cons_wait_data 1 q")
  case (Parks q')
  then show ?thesis
    by (simp add: pop_back_vec_def)
next
  case (Returns num q1)
  have "pop_back_loop moved num 0 (s @ []) q1 =
     (s @ fst (pop_back_loop moved num 0 [] q1), snd (pop_back_loop moved num 0 [] q1))"
    by (rule pop_back_loop_prior)
  then show ?thesis
    using Returns by (simp add: pop_back_vec_def split_beta)
qed

lemma pop_back_vec_parks:
  assumes "\<not> 1 \<le> prod_index q - cons_ci q"
  shows "\<exists>q'. pop_back_vec moved v q = Parks q'"
  using cons_wait_data_parks [OF assms] by (auto simp: pop_back_vec_def)

lemma pop_back_parks:
  assumes "\<not> 1 \<le> prod_index q - cons_ci q"
  shows "\<exists>q'. pop_back moved q = Parks q'"
  using cons_wait_data_parks [OF assms] by (auto simp: pop_back_def)

lemma push_front_parks:
  assumes "\<not> prod_pi q - cons_index q \<le> queue_capacity q - 1"
  shows "\<exists>q'. push_front x f q = Parks q'"
  using prod_wait_space_parks [OF assms]
  by (auto simp: push_front_def push_front_forward_def)

lemma pop_back_vec_returns_any:
  assumes "1 \<le> prod_index q - cons_ci q"
  shows "\<exists>v' q'. pop_back_vec moved v q = Returns (True, v') q'"
  using assms by (simp add: pop_back_vec_def cons_wait_data_returns split_beta)

text \<open>
  C6. Whatever \<^verbatim>\<open>push_front\<close> and the two forms of \<^verbatim>\<open>pop_back\<close> return is
  \<^verbatim>\<open>true\<close>. Run by its thread alone, a push returns exactly when there is a free slot
  and a pop exactly when an element is published; otherwise the thread parks until the
  other side moves. A push with \<^verbatim>\<open>force = false\<close> that returns has stored the item
  in its slot and counted it in \<open>prod_pi\<close>; only the published index is left behind.
  In every interleaving of the two threads, too, a call that has returned has returned
  \<^verbatim>\<open>true\<close>.
\<close>

theorem push_pop_return_true:
  "(\<forall>r q'. push_front x f q = Returns r q' \<longrightarrow> r = True)
   \<and> (\<forall>r y q'. pop_back moved q = Returns (r, y) q' \<longrightarrow> r = True)
   \<and> (\<forall>r v' q'. pop_back_vec moved v q = Returns (r, v') q' \<longrightarrow> r = True)
   \<and> ((\<exists>q'. push_front x f q = Returns True q')
        = (prod_pi q - cons_index q \<le> queue_capacity q - 1))
   \<and> ((\<exists>y q'. pop_back moved q = Returns (True, y) q') = (1 \<le> prod_index q - cons_ci q))
   \<and> ((\<exists>v' q'. pop_back_vec moved v q = Returns (True, v') q')
        = (1 \<le> prod_index q - cons_ci q))
   \<and> (prod_pi q - cons_index q \<le> queue_capacity q - 1 \<longrightarrow>
        (\<exists>q'. push_front x False q = Returns True q'
          \<and> ring q' = (ring q)[unat (normalize_index q (prod_pi q)) := x]
          \<and> prod_pi q' = prod_pi q + 1 \<and> prod_index q' = prod_index q
          \<and> (ring_ok q \<longrightarrow> slot q' (prod_pi q) = x)))
   \<and> (\<forall>q0 evs s. run moved evs (start q0) = Some s \<longrightarrow> returned_true s)"
proof (intro conjI)
  show "\<forall>q0 evs s. run moved evs (start q0) = Some s \<longrightarrow> returned_true s"
  proof (intro allI impI)
    fix q0 :: "'a SPSCQueue" and evs s
    assume "run moved evs (start q0) = Some s"
    moreover have "returned_true (start q0)"
      by (simp add: returned_true_def start_def)
    ultimately show "returned_true s"
      using run_returned_true by blast
  qed
  show "\<forall>r q'. push_front x f q = Returns r q' \<longrightarrow> r = True"
    by (auto simp: push_front_def push_front_forward_def Let_def split: outcome.splits)
  show "\<forall>r y q'. pop_back moved q = Returns (r, y) q' \<longrightarrow> r = True"
    by (auto simp: pop_back_def Let_def split: outcome.splits)
  show "\<forall>r v' q'. pop_back_vec moved v q = Returns (r, v') q' \<longrightarrow> r = True"
    by (auto simp: pop_back_vec_def split_beta split: outcome.splits)
  show "(\<exists>q'. push_front x f q = Returns True q')
        = (prod_pi q - cons_index q \<le> queue_capacity q - 1)"
  proof (cases "prod_pi q - cons_index q \<le> queue_capacity q - 1")
    case True
    then show ?thesis
      by (simp add: push_front_returns)
  next
    case False
    from push_front_parks [OF False] obtain q' where "push_front x f q = Parks q'"
      by blast
    with False show ?thesis
      by simp
  qed
  show "(\<exists>y q'. pop_back moved q = Returns (True, y) q') = (1 \<le> prod_index q - cons_ci q)"
  proof (cases "1 \<le> prod_index q - cons_ci q")
    case True
    then show ?thesis
      by (simp add: pop_back_returns)
  next
    case False
    from pop_back_parks [OF False] obtain q' where "pop_back moved q = Parks q'"
      by blast
    with False show ?thesis
      by simp
  qed
  show "(\<exists>v' q'. pop_back_vec moved v q = Returns (True, v') q')
        = (1 \<le> prod_index q - cons_ci q)"
  proof (cases "1 \<le> prod_index q - cons_ci q")
    case True
    then show ?thesis
      using pop_back_vec_returns_any [of q moved v] by simp
  next
    case False
    from pop_back_vec_parks [OF False] obtain q' where "pop_back_vec moved v q = Parks q'"
      by blast
    with False show ?thesis
      by simp
  qed
  show "prod_pi q - cons_index q \<le> queue_capacity q - 1 \<longrightarrow>
        (\<exists>q'. push_front x False q = Returns True q'
          \<and> ring q' = (ring q)[unat (normalize_index q (prod_pi q)) := x]
          \<and> prod_pi q' = prod_pi q + 1 \<and> prod_index q' = prod_index q
          \<and> (ring_ok q \<longrightarrow> slot q' (prod_pi q) = x))"
    using normalize_index_lt [of q "prod_pi q"]
    by (auto simp: push_front_returns slot_def normalize_index_def)
qed

theorem push_pop_return_true_witness:
  "(let q = \<lparr>ring_capacity = 4, queue_capacity = 4, ring = [10, 20, 0, 0 :: nat],
        prod_index = 2, prod_event = 0, prod_ci = 0, prod_pi = 2,
        cons_index = 0, cons_event = 0, cons_ci = 0, cons_pi = 0,
        prod_sem = False, cons_sem = False, cons_not = 0, prod_not = 0\<rparr>
    in prod_pi q - cons_index q \<le> queue_capacity q - 1
       \<and> (\<exists>q'. push_front 30 False q = Returns True q' \<and> ring q' = [10, 20, 30, 0]
              \<and> prod_pi q' = 3 \<and> prod_index q' = 2)
       \<and> (\<exists>y q'. pop_back (\<lambda>x. x) q = Returns (True, y) q')
       \<and> (\<exists>v' q'. pop_back_vec (\<lambda>x. x) [] q = Returns (True, v') q'))"
proof -
  let ?q = "\<lparr>ring_capacity = 4, queue_capacity = 4, ring = [10, 20, 0, 0 :: nat],
        prod_index = 2, prod_event = 0, prod_ci = 0, prod_pi = 2,
        cons_index = 0, cons_event = 0, cons_ci = 0, cons_pi = 0,
        prod_sem = False, cons_sem = False, cons_not = 0, prod_not = 0\<rparr>"
  note t = push_pop_return_true [of 30 False ?q "\<lambda>x. x" "[]"]
  have space: "prod_pi ?q - cons_index ?q \<le> queue_capacity ?q - 1"
    by simp
  have data: "1 \<le> prod_index ?q - cons_ci ?q"
    by simp
  have idx: "unat (normalize_index ?q (prod_pi ?q)) = 2"
    by (simp add: normalize_index_def)
  from t space have "\<exists>q'. push_front 30 False ?q = Returns True q'
          \<and> ring q' = (ring ?q)[unat (normalize_index ?q (prod_pi ?q)) := 30]
          \<and> prod_pi q' = prod_pi ?q + 1 \<and> prod_index q' = prod_index ?q"
    by blast
  then have a: "\<exists>q'. push_front 30 False ?q = Returns True q' \<and> ring q' = [10, 20, 30, 0]
              \<and> prod_pi q' = 3 \<and> prod_index q' = 2"
    unfolding idx by simp
  from t data have b: "\<exists>y q'. pop_back (\<lambda>x. x) ?q = Returns (True, y) q'"
    by blast
  from t data have c: "\<exists>v' q'. pop_back_vec (\<lambda>x. x) [] ?q = Returns (True, v') q'"
    by blast
  from space a b c show ?thesis
    by (simp only: Let_def)
qed

text \<open>
  C7, as the code has it. While at least one element is published, the vector form of
  \<^verbatim>\<open>pop_back\<close> appends all published elements to the container in queue order, moves
  the consumer index forward by their number \<open>n \<ge> 1\<close> up to the published producer
  index, and publishes it. It returns \<^verbatim>\<open>true\<close>, not the count: the count is the growth
  of the container. With no element published the consumer parks.
\<close>

theorem pop_batch_takes_all:
  assumes "ring_ok q"
    and "unat (prod_index q - cons_ci q) \<le> length (ring q)"
  shows "(1 \<le> prod_index q - cons_ci q \<longrightarrow>
      (\<exists>q'. pop_back_vec moved v q =
            Returns (True, v @ slots q (cons_ci q) (unat (prod_index q - cons_ci q))) q'
        \<and> 1 \<le> unat (prod_index q - cons_ci q)
        \<and> cons_ci q' = cons_ci q + (prod_index q - cons_ci q)
        \<and> cons_index q' = cons_ci q' \<and> cons_ci q' = prod_index q'))
    \<and> (\<not> 1 \<le> prod_index q - cons_ci q \<longrightarrow> (\<exists>q'. pop_back_vec moved v q = Parks q'))"
proof (intro conjI impI)
  assume data: "1 \<le> prod_index q - cons_ci q"
  then have "1 \<le> unat (prod_index q - cons_ci q)"
    by (simp add: word_le_nat_alt)
  then show "\<exists>q'. pop_back_vec moved v q =
            Returns (True, v @ slots q (cons_ci q) (unat (prod_index q - cons_ci q))) q'
        \<and> 1 \<le> unat (prod_index q - cons_ci q)
        \<and> cons_ci q' = cons_ci q + (prod_index q - cons_ci q)
        \<and> cons_index q' = cons_ci q' \<and> cons_ci q' = prod_index q'"
    using pop_back_vec_returns [OF assms(1) data assms(2), of moved v] by auto
next
  assume "\<not> 1 \<le> prod_index q - cons_ci q"
  then show "\<exists>q'. pop_back_vec moved v q = Parks q'"
    by (rule pop_back_vec_parks)
qed

lemma ring_ok_4:
  "ring_ok \<lparr>ring_capacity = 4, queue_capacity = c, ring = [a, b, d, e],
        prod_index = p1, prod_event = p2, prod_ci = p3, prod_pi = p4,
        cons_index = c1, cons_event = c2, cons_ci = c3, cons_pi = c4,
        prod_sem = s1, cons_sem = s2, cons_not = n1, prod_not = n2\<rparr>"
proof -
  have "(4 :: size_t) = 2 ^ 2"
    by simp
  then show ?thesis
    unfolding ring_ok_def by (intro conjI exI [of _ 2]) simp_all
qed

lemma slots_2: "slots q a 2 = [slot q a, slot q (a + 1)]"
  by (simp add: slots_def numeral_2_eq_2)

theorem pop_batch_takes_all_witness:
  "(let q = \<lparr>ring_capacity = 4, queue_capacity = 4, ring = [10, 20, 0, 0 :: nat],
        prod_index = 2, prod_event = 0, prod_ci = 0, prod_pi = 2,
        cons_index = 0, cons_event = 0, cons_ci = 0, cons_pi = 0,
        prod_sem = False, cons_sem = False, cons_not = 0, prod_not = 0\<rparr>
    in ring_ok q \<and> unat (prod_index q - cons_ci q) \<le> length (ring q)
       \<and> 1 \<le> prod_index q - cons_ci q
       \<and> (\<exists>q'. pop_back_vec (\<lambda>x. x) [5] q = Returns (True, [5, 10, 20]) q'
              \<and> cons_ci q' = 2 \<and> cons_index q' = 2))"
proof -
  let ?q = "\<lparr>ring_capacity = 4, queue_capacity = 4, ring = [10, 20, 0, 0 :: nat],
        prod_index = 2, prod_event = 0, prod_ci = 0, prod_pi = 2,
        cons_index = 0, cons_event = 0, cons_ci = 0, cons_pi = 0,
        prod_sem = False, cons_sem = False, cons_not = 0, prod_not = 0\<rparr>"
  have ok: "ring_ok ?q"
    by (rule ring_ok_4)
  have len: "unat (prod_index ?q - cons_ci ?q) \<le> length (ring ?q)"
    by simp
  have data: "1 \<le> prod_index ?q - cons_ci ?q"
    by simp
  have sl: "[5] @ slots ?q (cons_ci ?q) (unat (prod_index ?q - cons_ci ?q)) = [5, 10, 20]"
    by (simp add: slots_2 slot_def normalize_index_def)
  from pop_batch_takes_all [OF ok len, of "\<lambda>x. x" "[5]"] data
  have "\<exists>q'. pop_back_vec (\<lambda>x. x) [5] ?q =
            Returns (True, [5] @ slots ?q (cons_ci ?q) (unat (prod_index ?q - cons_ci ?q))) q'
        \<and> cons_ci q' = cons_ci ?q + (prod_index ?q - cons_ci ?q)
        \<and> cons_index q' = cons_ci q'"
    by blast
  then have "\<exists>q'. pop_back_vec (\<lambda>x. x) [5] ?q = Returns (True, [5, 10, 20]) q'
              \<and> cons_ci q' = 2 \<and> cons_index q' = 2"
    unfolding sl by auto
  with ok len data show ?thesis
    by (simp only: Let_def)
qed

text \<open>
  The claim C7 as stated fails: with two elements published the call removes both and
  returns \<^verbatim>\<open>true\<close>, which as a number is 1, not the count 2.
\<close>

theorem pop_batch_returns_true_not_count:
  "pop_back_vec (\<lambda>x. x) []
     \<lparr>ring_capacity = 4, queue_capacity = 4, ring = [10, 20, 0, 0 :: nat],
      prod_index = 2, prod_event = 0, prod_ci = 0, prod_pi = 2,
      cons_index = 0, cons_event = 0, cons_ci = 0, cons_pi = 0,
      prod_sem = False, cons_sem = False, cons_not = 0, prod_not = 0\<rparr>
   = Returns (True, [10, 20])
     \<lparr>ring_capacity = 4, queue_capacity = 4, ring = [10, 20, 0, 0 :: nat],
      prod_index = 2, prod_event = 0, prod_ci = 0, prod_pi = 2,
      cons_index = 2, cons_event = 0, cons_ci = 2, cons_pi = 2,
      prod_sem = True, cons_sem = False, cons_not = 1, prod_not = 0\<rparr>
   \<and> (of_bool True :: nat) \<noteq> length [10, 20 :: nat]"
  by (simp add: pop_back_vec_def cons_wait_data_returns pop_back_loop.simps
      cons_advance_def cons_notify_def normalize_index_def Semaphore_signal_def)

text \<open>
  C10. The vector form of \<^verbatim>\<open>pop_back\<close> leaves the prior contents \<open>s\<close> of the caller's
  vector in place and in order and puts what it pops behind them: a call on a vector
  holding \<open>s\<close> returns \<open>s\<close> followed by what the same call returns on an empty vector,
  and with elements published that is \<open>s\<close> followed by the published elements in queue
  order.
\<close>

theorem pop_back_vec_appends:
  "pop_back_vec moved s q =
     (case pop_back_vec moved [] q of
        Parks q' \<Rightarrow> Parks q'
      | Returns (r, ys) q' \<Rightarrow> Returns (r, s @ ys) q')
   \<and> (ring_ok q \<and> 1 \<le> prod_index q - cons_ci q
        \<and> unat (prod_index q - cons_ci q) \<le> length (ring q) \<longrightarrow>
       (\<exists>q'. pop_back_vec moved s q =
          Returns (True, s @ slots q (cons_ci q) (unat (prod_index q - cons_ci q))) q'))"
  using pop_back_vec_returns [of q moved s] by (auto simp: pop_back_vec_prior [of moved s q])

theorem pop_back_vec_appends_witness:
  "(let q = \<lparr>ring_capacity = 4, queue_capacity = 4, ring = [0, 11, 12, 13 :: nat],
        prod_index = 4, prod_event = 0, prod_ci = 0, prod_pi = 4,
        cons_index = 0, cons_event = 0, cons_ci = 2, cons_pi = 3,
        prod_sem = False, cons_sem = False, cons_not = 0, prod_not = 0\<rparr>
    in ring_ok q \<and> 1 \<le> prod_index q - cons_ci q
       \<and> unat (prod_index q - cons_ci q) \<le> length (ring q)
       \<and> (\<exists>q'. pop_back_vec (\<lambda>x. 0) [1, 2, 3] q = Returns (True, [1, 2, 3, 12, 13]) q'))"
proof -
  let ?q = "\<lparr>ring_capacity = 4, queue_capacity = 4, ring = [0, 11, 12, 13 :: nat],
        prod_index = 4, prod_event = 0, prod_ci = 0, prod_pi = 4,
        cons_index = 0, cons_event = 0, cons_ci = 2, cons_pi = 3,
        prod_sem = False, cons_sem = False, cons_not = 0, prod_not = 0\<rparr>"
  have ok: "ring_ok ?q"
    by (rule ring_ok_4)
  have data: "1 \<le> prod_index ?q - cons_ci ?q"
    by simp
  have len: "unat (prod_index ?q - cons_ci ?q) \<le> length (ring ?q)"
    by simp
  have sl: "[1, 2, 3] @ slots ?q (cons_ci ?q) (unat (prod_index ?q - cons_ci ?q))
      = [1, 2, 3, 12, 13]"
    by (simp add: slots_2 slot_def normalize_index_def)
  from pop_back_vec_appends [of "\<lambda>x. 0" "[1, 2, 3]" ?q] ok data len
  have "\<exists>q'. pop_back_vec (\<lambda>x. 0) [1, 2, 3] ?q =
          Returns (True, [1, 2, 3] @ slots ?q (cons_ci ?q) (unat (prod_index ?q - cons_ci ?q))) q'"
    by blast
  then have "\<exists>q'. pop_back_vec (\<lambda>x. 0) [1, 2, 3] ?q = Returns (True, [1, 2, 3, 12, 13]) q'"
    unfolding sl .
  with ok data len show ?thesis
    by (simp only: Let_def)
qed

section \<open>The occupancy invariant\<close>

lemma off_diff:
  fixes x y b :: index_t
  assumes "unat (x - b) \<le> unat (y - b)"
  shows "unat (y - x) = unat (y - b) - unat (x - b)"
proof -
  have "y - x = (y - b) - (x - b)"
    by simp
  moreover have "x - b \<le> y - b"
    using assms by (simp add: word_le_nat_alt)
  ultimately show ?thesis
    by (simp only: unat_sub)
qed

lemma off_add:
  fixes x h b :: index_t
  assumes "unat (x - b) + unat h < 2 ^ 64"
  shows "unat (x + h - b) = unat (x - b) + unat h"
proof -
  have "x + h - b = (x - b) + h"
    by simp
  moreover have "unat ((x - b) + h) = unat (x - b) + unat h"
    using assms unat_add_lem [of "x - b" h] by simp
  ultimately show ?thesis
    by (simp only:)
qed

lemma ordered_cong:
  assumes "prod_ci q' = prod_ci q" "cons_index q' = cons_index q" "cons_ci q' = cons_ci q"
    "cons_pi q' = cons_pi q" "prod_index q' = prod_index q" "prod_pi q' = prod_pi q"
    "queue_capacity q' = queue_capacity q"
  shows "ordered q' = ordered q"
  by (simp add: ordered_def offs_def assms)

lemma ordered_rebase:
  assumes "ordered q"
  shows "ordered (q\<lparr>prod_ci := cons_index q\<rparr>)"
proof -
  let ?b = "prod_ci q" and ?x = "cons_index q"
  from assms have o: "unat (?x - ?b) \<le> unat (cons_ci q - ?b)"
    "unat (cons_ci q - ?b) \<le> unat (cons_pi q - ?b)"
    "unat (cons_pi q - ?b) \<le> unat (prod_index q - ?b)"
    "unat (prod_index q - ?b) \<le> unat (prod_pi q - ?b)"
    "unat (prod_pi q - ?b) \<le> unat (queue_capacity q)"
    by (simp_all add: ordered_def offs_def)
  have "unat (cons_ci q - ?x) = unat (cons_ci q - ?b) - unat (?x - ?b)"
    "unat (cons_pi q - ?x) = unat (cons_pi q - ?b) - unat (?x - ?b)"
    "unat (prod_index q - ?x) = unat (prod_index q - ?b) - unat (?x - ?b)"
    "unat (prod_pi q - ?x) = unat (prod_pi q - ?b) - unat (?x - ?b)"
    using o off_diff [of ?x ?b "cons_ci q"] off_diff [of ?x ?b "cons_pi q"]
      off_diff [of ?x ?b "prod_index q"] off_diff [of ?x ?b "prod_pi q"]
    by simp_all
  then show ?thesis
    using o unfolding ordered_def offs_def by simp arith
qed

lemma ordered_prod_publish:
  assumes "ordered q"
  shows "ordered (q\<lparr>prod_index := prod_pi q\<rparr>)"
  using assms by (simp add: ordered_def offs_def)

lemma ordered_prod_advance:
  assumes "ordered q" "unat (prod_pi q - prod_ci q) + 1 \<le> unat (queue_capacity q)"
  shows "ordered (q\<lparr>prod_pi := prod_pi q + 1\<rparr>)"
proof -
  have "unat (prod_pi q - prod_ci q) + unat (1 :: index_t) < 2 ^ 64"
    using assms(2) unat_capacity_bound [of "queue_capacity q"] by simp
  then have "unat (prod_pi q + 1 - prod_ci q) = unat (prod_pi q - prod_ci q) + 1"
    using off_add [of "prod_pi q" "prod_ci q" 1] by simp
  then show ?thesis
    using assms by (simp add: ordered_def offs_def)
qed

lemma ordered_cons_load:
  assumes "ordered q"
  shows "ordered (q\<lparr>cons_pi := prod_index q\<rparr>)"
  using assms by (simp add: ordered_def offs_def)

lemma ordered_cons_publish:
  assumes "ordered q"
  shows "ordered (q\<lparr>cons_index := cons_ci q\<rparr>)"
  using assms by (simp add: ordered_def offs_def)

lemma ordered_cons_advance:
  assumes "ordered q" "unat h \<le> unat (cons_pi q - cons_ci q)"
  shows "ordered (q\<lparr>cons_ci := cons_ci q + h\<rparr>)"
proof -
  let ?b = "prod_ci q"
  from assms(1) have o: "unat (cons_index q - ?b) \<le> unat (cons_ci q - ?b)"
    "unat (cons_ci q - ?b) \<le> unat (cons_pi q - ?b)"
    by (simp_all add: ordered_def offs_def)
  have d: "unat (cons_pi q - cons_ci q) = unat (cons_pi q - ?b) - unat (cons_ci q - ?b)"
    using o(2) by (rule off_diff)
  have "unat (cons_pi q - ?b) < 2 ^ 64"
    by (rule unat_capacity_bound)
  then have "unat (cons_ci q - ?b) + unat h < 2 ^ 64"
    using assms(2) o(2) d by simp
  then have "unat (cons_ci q + h - ?b) = unat (cons_ci q - ?b) + unat h"
    by (rule off_add)
  then show ?thesis
    using assms o d by (simp add: ordered_def offs_def)
qed

lemma prod_ok_cong:
  assumes "prod_pi q' = prod_pi q" "prod_ci q' = prod_ci q" "queue_capacity q' = queue_capacity q"
  shows "prod_ok q' p = prod_ok q p"
  by (cases p) (simp_all add: assms)

lemma cons_ok_cong:
  assumes "cons_pi q' = cons_pi q" "cons_ci q' = cons_ci q"
  shows "cons_ok q' c = cons_ok q c"
  by (cases c) (simp_all add: assms)

lemma has_space_reserves:
  assumes "queue_capacity q \<noteq> 0" "prod_pi q - cons_index q \<le> queue_capacity q - 1"
  shows "unat (prod_pi q - cons_index q) + 1 \<le> unat (queue_capacity q)"
proof -
  have "unat (queue_capacity q - 1) = unat (queue_capacity q) - 1"
    using assms(1) by (rule unat_minus_one)
  moreover have "0 < unat (queue_capacity q)"
    using assms(1) by (simp add: unat_gt_0)
  ultimately show ?thesis
    using assms(2) by (simp add: word_le_nat_alt)
qed

lemma prod_step_invariant:
  assumes "queue_capacity q \<noteq> 0" "ordered q" "prod_ok q (P_at lab l)"
    and "prod_step lab l q = Some (q', p')"
  shows "queue_capacity q' = queue_capacity q \<and> ordered q' \<and> prod_ok q' p'
    \<and> cons_pi q' = cons_pi q \<and> cons_ci q' = cons_ci q"
proof (cases lab)
  case P_wait_check
  then show ?thesis
    using assms ordered_rebase [of q] has_space_reserves [of q]
    by (auto simp: prod_has_space_def)
next
  case P_wait_event
  then show ?thesis
    using assms by (auto simp: ordered_def offs_def)
next
  case (P_notify_publish s)
  then show ?thesis
    using assms ordered_prod_publish [of q] by auto
next
  case (P_notify_load s)
  then show ?thesis
    using assms by auto
next
  case (P_notify_test s)
  then show ?thesis
    using assms by (cases s) (auto simp: ordered_def offs_def)
next
  case P_wait_recheck
  then show ?thesis
    using assms ordered_rebase [of q] has_space_reserves [of q]
    by (auto simp: prod_has_space_def)
next
  case P_wait_park
  then show ?thesis
    using assms by (auto simp: ordered_def offs_def Semaphore_wait_def split: if_splits)
next
  case P_wait_reload
  then show ?thesis
    using assms ordered_rebase [of q] by auto
next
  case P_write
  then show ?thesis
    using assms by (auto simp: ordered_def offs_def)
next
  case P_advance
  then show ?thesis
    using assms ordered_prod_advance [of q] by auto
qed

lemma has_data_available:
  assumes "1 \<le> prod_index q - cons_ci q"
  shows "1 \<le> unat (prod_index q - cons_ci q)"
  using assms by (simp add: word_le_nat_alt)

lemma cons_wait_done_ok:
  assumes "c_want l = 1" "1 \<le> unat (cons_pi q - cons_ci q)"
  shows "cons_ok q (cons_wait_done l q)"
  using assms by (simp add: cons_wait_done_def Let_def)

lemma cons_step_invariant:
  assumes "ordered q" "cons_ok q (C_at lab l)"
    and "cons_step moved lab l q = Some (q', c')"
  shows "queue_capacity q' = queue_capacity q \<and> ordered q' \<and> cons_ok q' c'
    \<and> prod_pi q' = prod_pi q \<and> prod_ci q' = prod_ci q"
proof (cases lab)
  case C_wait_check
  then show ?thesis
    using assms ordered_cons_load [of q]
      cons_wait_done_ok [of l "q\<lparr>cons_pi := prod_index q\<rparr>"] has_data_available [of q]
    by (auto simp: cons_has_data_def)
next
  case C_wait_sleep
  then show ?thesis
    using assms by auto
next
  case C_wait_check2
  then show ?thesis
    using assms ordered_cons_load [of q]
      cons_wait_done_ok [of l "q\<lparr>cons_pi := prod_index q\<rparr>"] has_data_available [of q]
    by (auto simp: cons_has_data_def)
next
  case C_wait_event
  then show ?thesis
    using assms by (auto simp: ordered_def offs_def)
next
  case (C_notify_publish s)
  then show ?thesis
    using assms ordered_cons_publish [of q] by auto
next
  case (C_notify_load s)
  then show ?thesis
    using assms by auto
next
  case (C_notify_test s)
  then show ?thesis
    using assms by (cases s) (auto simp: ordered_def offs_def)
next
  case C_wait_recheck
  then show ?thesis
    using assms ordered_cons_load [of q]
      cons_wait_done_ok [of l "q\<lparr>cons_pi := prod_index q\<rparr>"] has_data_available [of q]
    by (auto simp: cons_has_data_def)
next
  case C_wait_park
  then show ?thesis
    using assms by (auto simp: ordered_def offs_def Semaphore_wait_def split: if_splits)
next
  case C_move
  then show ?thesis
    using assms by (auto simp: ordered_def offs_def Let_def)
next
  case C_loop
  then show ?thesis
    using assms by (auto simp: ordered_def offs_def Let_def split: if_splits)
next
  case C_advance
  then show ?thesis
    using assms ordered_cons_advance [of q "c_have l"] by (auto simp: Let_def)
qed

lemma exec_invariant:
  assumes "invariant s" "exec moved e s = Some s'"
  shows "invariant s' \<and> queue_capacity (queue s') = queue_capacity (queue s)"
proof (cases e)
  case (Push x f)
  then show ?thesis
    using assms by (cases "producer s") (auto simp: invariant_def prod_locals0_def)
next
  case Pop
  then show ?thesis
    using assms by (cases "consumer s") (auto simp: invariant_def cons_locals0_def)
next
  case (Pop_vec v)
  then show ?thesis
    using assms by (cases "consumer s") (auto simp: invariant_def cons_locals0_def)
next
  case Prod
  show ?thesis
  proof (cases "producer s")
    case (P_at lab l)
    with Prod assms(2) obtain q' p' where
      step: "prod_step lab l (queue s) = Some (q', p')"
      and s': "s' = s\<lparr>queue := q', producer := p'\<rparr>"
      by (auto split: option.splits)
    from assms(1) P_at have "queue_capacity (queue s) \<noteq> 0" "ordered (queue s)"
      "prod_ok (queue s) (P_at lab l)" "cons_ok (queue s) (consumer s)"
      by (simp_all add: invariant_def)
    with prod_step_invariant [OF this(1-3) step] show ?thesis
      by (simp add: invariant_def s' cons_ok_cong [of q' "queue s"])
  qed (use Prod assms(2) in simp_all)
next
  case Cons
  show ?thesis
  proof (cases "consumer s")
    case (C_at lab l)
    with Cons assms(2) obtain q' c' where
      step: "cons_step moved lab l (queue s) = Some (q', c')"
      and s': "s' = s\<lparr>queue := q', consumer := c'\<rparr>"
      by (auto split: option.splits)
    from assms(1) C_at have "queue_capacity (queue s) \<noteq> 0" "ordered (queue s)"
      "cons_ok (queue s) (C_at lab l)" "prod_ok (queue s) (producer s)"
      by (simp_all add: invariant_def)
    with cons_step_invariant [OF this(2,3) step] show ?thesis
      by (simp add: invariant_def s' prod_ok_cong [of q' "queue s"])
  qed (use Cons assms(2) in simp_all)
qed

lemma run_invariant:
  assumes "invariant s" "run moved evs s = Some s'"
  shows "invariant s' \<and> queue_capacity (queue s') = queue_capacity (queue s)"
  using assms
proof (induction evs arbitrary: s)
  case Nil
  then show ?case
    by simp
next
  case (Cons e evs)
  from Cons.prems(2) obtain s1 where e: "exec moved e s = Some s1"
    and r: "run moved evs s1 = Some s'"
    by (auto split: option.splits)
  from exec_invariant [OF Cons.prems(1) e] Cons.IH [OF _ r] show ?case
    by simp
qed

lemma start_invariant:
  assumes "new_SPSCQueue pf c = Inr q0" "c \<noteq> 0"
  shows "invariant (start q0)" and "queue_capacity q0 = c"
  using assms(2)
  by (auto simp: new_SPSCQueue_Inr [OF assms(1)] invariant_def start_def ordered_def offs_def)

lemma invariant_bounds:
  assumes "invariant s"
  shows "unat (prod_index (queue s) - cons_index (queue s)) \<le> unat (queue_capacity (queue s))"
    and "unat (prod_pi (queue s) - cons_ci (queue s)) \<le> unat (queue_capacity (queue s))"
    and "unat (prod_pi (queue s) - cons_index (queue s)) \<le> unat (prod_pi (queue s) - prod_ci (queue s))"
    and "unat (prod_pi (queue s) - prod_ci (queue s)) \<le> unat (queue_capacity (queue s))"
proof -
  let ?q = "queue s" and ?b = "prod_ci (queue s)"
  from assms have o: "unat (cons_index ?q - ?b) \<le> unat (cons_ci ?q - ?b)"
    "unat (cons_ci ?q - ?b) \<le> unat (cons_pi ?q - ?b)"
    "unat (cons_pi ?q - ?b) \<le> unat (prod_index ?q - ?b)"
    "unat (prod_index ?q - ?b) \<le> unat (prod_pi ?q - ?b)"
    "unat (prod_pi ?q - ?b) \<le> unat (queue_capacity ?q)"
    by (simp_all add: invariant_def ordered_def offs_def)
  show "unat (prod_index ?q - cons_index ?q) \<le> unat (queue_capacity ?q)"
    using o off_diff [of "cons_index ?q" ?b "prod_index ?q"] by simp
  show "unat (prod_pi ?q - cons_ci ?q) \<le> unat (queue_capacity ?q)"
    using o off_diff [of "cons_ci ?q" ?b "prod_pi ?q"] by simp
  show "unat (prod_pi ?q - cons_index ?q) \<le> unat (prod_pi ?q - ?b)"
    using o off_diff [of "cons_index ?q" ?b "prod_pi ?q"] by simp
  show "unat (prod_pi ?q - ?b) \<le> unat (queue_capacity ?q)"
    using o by simp
qed

text \<open>
  C2. For every queue constructed with a requested capacity \<open>C \<ge> 1\<close> and every state
  reached by interleaving steps of a producer thread that calls \<^verbatim>\<open>push_front\<close> and of a
  consumer thread that calls either form of \<^verbatim>\<open>pop_back\<close>, the producer index is at most
  \<open>C\<close> ahead of the consumer index, for the published pair, for the private pair and for
  the producer's private index against the published consumer index. When the producer
  has left \<^verbatim>\<open>prod_wait_space(1)\<close> and is about to write its slot or to advance, the
  distance is at most \<open>C - 1\<close>, so the advance by one keeps the bound; and a call of
  \<^verbatim>\<open>prod_wait_space(1)\<close> returns only in such a state.
\<close>

theorem occupancy_invariant:
  assumes "new_SPSCQueue pf c = Inr q0" and "1 \<le> unat c"
    and "run moved evs (start q0) = Some s"
  shows "queue_capacity (queue s) = c
    \<and> unat (prod_index (queue s) - cons_index (queue s)) \<le> unat c
    \<and> unat (prod_pi (queue s) - cons_ci (queue s)) \<le> unat c
    \<and> unat (prod_pi (queue s) - cons_index (queue s)) \<le> unat c
    \<and> (\<forall>l. producer s = P_at P_write l \<or> producer s = P_at P_advance l \<longrightarrow>
          unat (prod_pi (queue s) - cons_index (queue s)) \<le> unat c - 1)
    \<and> (\<forall>(q :: 'a SPSCQueue) space q1. queue_capacity q = c \<and> prod_wait_space 1 q = Returns space q1 \<longrightarrow>
          unat (prod_pi q1 - cons_index q1) \<le> unat c - 1)"
proof -
  have c0: "c \<noteq> 0"
    using assms(2) by auto
  note st = start_invariant [OF assms(1) c0]
  from run_invariant [OF st(1) assms(3)] st(2)
  have inv: "invariant s" and cap: "queue_capacity (queue s) = c"
    by (simp_all add: start_def)
  note b = invariant_bounds [OF inv, unfolded cap]
  have reserved: "unat (prod_pi (queue s) - cons_index (queue s)) \<le> unat c - 1"
    if "producer s = P_at P_write l \<or> producer s = P_at P_advance l" for l
  proof -
    from inv that have "unat (prod_pi (queue s) - prod_ci (queue s)) + 1 \<le> unat c"
      by (auto simp: invariant_def cap)
    with b(3) show ?thesis
      by simp
  qed
  have wait: "unat (prod_pi q1 - cons_index q1) \<le> unat c - 1"
    if "queue_capacity q = c" "prod_wait_space 1 q = Returns space q1" for q :: "'a SPSCQueue" and space q1
  proof (cases "prod_pi q - cons_index q \<le> queue_capacity q - 1")
    case True
    with that(2) have "q1 = q\<lparr>prod_ci := cons_index q\<rparr>"
      by (simp add: prod_wait_space_returns)
    then show ?thesis
      using has_space_reserves [OF _ True] c0 that(1) by simp
  next
    case False
    from prod_wait_space_parks [OF False] that(2) show ?thesis
      by auto
  qed
  show ?thesis
  proof (intro conjI allI impI)
    show "queue_capacity (queue s) = c"
      by (rule cap)
    show "unat (prod_index (queue s) - cons_index (queue s)) \<le> unat c"
      by (rule b(1))
    show "unat (prod_pi (queue s) - cons_ci (queue s)) \<le> unat c"
      by (rule b(2))
    show "unat (prod_pi (queue s) - cons_index (queue s)) \<le> unat c"
      using b(3,4) by simp
    show "unat (prod_pi (queue s) - cons_index (queue s)) \<le> unat c - 1"
      if "producer s = P_at P_write l \<or> producer s = P_at P_advance l" for l
      using that by (rule reserved)
    show "unat (prod_pi q1 - cons_index q1) \<le> unat c - 1"
      if "queue_capacity q = c \<and> prod_wait_space 1 q = Returns space q1"
      for q :: "'a SPSCQueue" and space q1
      using that wait by blast
  qed
qed

theorem occupancy_invariant_witness:
  "(let q0 = \<lparr>ring_capacity = 2, queue_capacity = 2, ring = [0, 0 :: nat],
        prod_index = 0, prod_event = 0, prod_ci = 0, prod_pi = 0,
        cons_index = 0, cons_event = 0, cons_ci = 0, cons_pi = 0,
        prod_sem = False, cons_sem = False, cons_not = 0, prod_not = 0\<rparr>;
        s = \<lparr>queue = \<lparr>ring_capacity = 2, queue_capacity = 2, ring = [5, 6],
                 prod_index = 1, prod_event = 0, prod_ci = 0, prod_pi = 1,
                 cons_index = 0, cons_event = 0, cons_ci = 0, cons_pi = 0,
                 prod_sem = False, cons_sem = True, cons_not = 0, prod_not = 1\<rparr>,
             producer = P_at P_advance
               \<lparr>p_item = 6, p_force = False, p_want = 1, p_old = 0, p_ce = 0\<rparr>,
             consumer = C_at C_wait_check2
               \<lparr>c_batch = False, c_pItem = None, c_container = [], c_want = 1,
                c_num = 0, c_i = 0, c_have = 0, c_old = 0, c_pe = 0\<rparr>\<rparr>
    in new_SPSCQueue \<lparr>log2 = \<lambda>d. log 2 (real d), can_alloc = \<lambda>n. True, fresh = \<lambda>i. 0\<rparr> 2
         = Inr q0
       \<and> 1 \<le> unat (2 :: size_t)
       \<and> run (\<lambda>x. x) [Push 5 True, Prod, Prod, Pop, Cons, Prod, Cons, Prod, Prod, Prod,
             Push 6 False, Prod, Prod] (start q0) = Some s
       \<and> unat (prod_pi (queue s) - cons_index (queue s)) \<le> unat (2 :: size_t) - 1)"
proof -
  let ?q0 = "\<lparr>ring_capacity = 2, queue_capacity = 2, ring = [0, 0 :: nat],
        prod_index = 0, prod_event = 0, prod_ci = 0, prod_pi = 0,
        cons_index = 0, cons_event = 0, cons_ci = 0, cons_pi = 0,
        prod_sem = False, cons_sem = False, cons_not = 0, prod_not = 0\<rparr>"
  let ?s = "\<lparr>queue = \<lparr>ring_capacity = 2, queue_capacity = 2, ring = [5, 6 :: nat],
                 prod_index = 1, prod_event = 0, prod_ci = 0, prod_pi = 1,
                 cons_index = 0, cons_event = 0, cons_ci = 0, cons_pi = 0,
                 prod_sem = False, cons_sem = True, cons_not = 0, prod_not = 1\<rparr>,
             producer = P_at P_advance
               \<lparr>p_item = 6, p_force = False, p_want = 1, p_old = 0, p_ce = 0\<rparr>,
             consumer = C_at C_wait_check2
               \<lparr>c_batch = False, c_pItem = None, c_container = [], c_want = 1,
                c_num = 0, c_i = 0, c_have = 0, c_old = 0, c_pe = 0\<rparr>\<rparr>"
  let ?pf = "\<lparr>log2 = \<lambda>d. log 2 (real d), can_alloc = \<lambda>n. True, fresh = \<lambda>i. 0 :: nat\<rparr>"
  have rc: "shl 1 (log2_ceil ?pf 2) = 2"
    by (simp add: shl_def log2_ceil_def to_double_exact)
  have fill: "map (fresh ?pf) [0..<unat (2 :: size_t)] = [0, 0]"
    by (simp add: upt_rec)
  have h1: "new_SPSCQueue ?pf 2 = Inr ?q0"
    unfolding new_SPSCQueue_eq rc fill by simp
  have h2: "1 \<le> unat (2 :: size_t)"
    by simp
  have h3: "run (\<lambda>x. x) [Push 5 True, Prod, Prod, Pop, Cons, Prod, Cons, Prod, Prod, Prod,
             Push 6 False, Prod, Prod] (start ?q0) = Some ?s"
    by (simp add: start_def prod_locals0_def cons_locals0_def prod_has_space_def
        cons_has_data_def normalize_index_def Semaphore_signal_def)
  from occupancy_invariant [OF h1 h2 h3]
  have "\<forall>l. producer ?s = P_at P_write l \<or> producer ?s = P_at P_advance l \<longrightarrow>
      unat (prod_pi (queue ?s) - cons_index (queue ?s)) \<le> unat (2 :: size_t) - 1"
    by (elim conjE)
  then have "unat (prod_pi (queue ?s) - cons_index (queue ?s)) \<le> unat (2 :: size_t) - 1"
    by simp
  with h1 h2 h3 show ?thesis
    by (simp only: Let_def)
qed

section \<open>The producer's wait path and deferred publication\<close>

lemma prod_notify_steps:
  "prod_step (P_notify_publish st) l q = Some (q1, P_at (P_notify_load st) l1)
   \<Longrightarrow> prod_step (P_notify_load st) l1 q1 = Some (q2, P_at (P_notify_test st) l2)
   \<Longrightarrow> prod_step (P_notify_test st) l2 q2 = Some (q3, p3)
   \<Longrightarrow> q3 = prod_notify q"
  by (auto simp: prod_notify_def Let_def)

lemma cons_notify_steps:
  "cons_step moved (C_notify_publish st) l q = Some (q1, C_at (C_notify_load st) l1)
   \<Longrightarrow> cons_step moved (C_notify_load st) l1 q1 = Some (q2, C_at (C_notify_test st) l2)
   \<Longrightarrow> cons_step moved (C_notify_test st) l2 q2 = Some (q3, c3)
   \<Longrightarrow> q3 = cons_notify q"
  by (auto simp: cons_notify_def Let_def)

text \<open>
  C8. Let the producer stand at the head of the loop of \<^verbatim>\<open>prod_wait_space(want)\<close> with
  too little space, \<open>P - Q > C - want\<close> for the published consumer index \<open>Q\<close>. Its next
  steps, taken while the consumer stands still, are: refresh the shadow of \<open>Q\<close> and
  publish the event \<open>Q + (P - Q) div 4\<close> from the shadows; run \<^verbatim>\<open>prod_notify\<close>; check
  again; stand before \<^verbatim>\<open>prod_sem.wait()\<close>, where it stays while the flag is clear; once
  the flag is set, clear it, reload \<open>Q\<close> and stand at the head of the loop again. The
  call as a whole does the same. The consumer may move between any two of these steps,
  so the last three are also given for whatever state the queue is in by then: the
  second check reads the consumer index published at that moment, and goes on to write
  the slot if there is space now and to \<^verbatim>\<open>prod_sem.wait()\<close> only if there is none;
  \<^verbatim>\<open>prod_sem.wait()\<close> passes exactly when the flag is set, and clears it; the reload
  takes the consumer index published at that moment and leads to the head of the loop.
\<close>

theorem producer_hysteresis:
  assumes "\<not> prod_pi q - cons_index q \<le> queue_capacity q - p_want l"
    and "queue s = q" and "producer s = P_at P_wait_check l"
  shows "run moved [Prod, Prod] s = Some (s\<lparr>queue := q\<lparr>prod_ci := cons_index q,
               prod_event := cons_index q + (prod_pi q - cons_index q) div 4\<rparr>,
             producer := P_at (P_notify_publish In_wait) l\<rparr>)
    \<and> run moved [Prod, Prod, Prod, Prod, Prod] s = Some (s\<lparr>queue := prod_slow q,
             producer := P_at P_wait_recheck (l\<lparr>p_old := prod_index q, p_ce := cons_event q\<rparr>)\<rparr>)
    \<and> run moved [Prod, Prod, Prod, Prod, Prod, Prod] s = Some (s\<lparr>queue := prod_slow q,
             producer := P_at P_wait_park (l\<lparr>p_old := prod_index q, p_ce := cons_event q\<rparr>)\<rparr>)
    \<and> (\<not> prod_sem q \<longrightarrow> run moved [Prod, Prod, Prod, Prod, Prod, Prod, Prod] s = None)
    \<and> (prod_sem q \<longrightarrow> run moved [Prod, Prod, Prod, Prod, Prod, Prod, Prod, Prod] s =
          Some (s\<lparr>queue := (prod_slow q)\<lparr>prod_sem := False, prod_ci := cons_index q\<rparr>,
             producer := P_at P_wait_check (l\<lparr>p_old := prod_index q, p_ce := cons_event q\<rparr>)\<rparr>))
    \<and> prod_event (prod_slow q) = cons_index q + (prod_pi q - cons_index q) div 4
    \<and> prod_wait_space (p_want l) q =
         (if prod_sem q then prod_wait_space (p_want l) ((prod_slow q)\<lparr>prod_sem := False\<rparr>)
          else Parks (prod_slow q))
    \<and> (\<forall>(t :: 'a system) l'. producer t = P_at P_wait_recheck l' \<longrightarrow>
          run moved [Prod] t = Some (t\<lparr>queue := (queue t)\<lparr>prod_ci := cons_index (queue t)\<rparr>,
             producer := P_at
               (if prod_pi (queue t) - cons_index (queue t) \<le> queue_capacity (queue t) - p_want l'
                then P_write else P_wait_park) l'\<rparr>))
    \<and> (\<forall>(t :: 'a system) l'. producer t = P_at P_wait_park l' \<longrightarrow>
          run moved [Prod] t =
            (if prod_sem (queue t)
             then Some (t\<lparr>queue := (queue t)\<lparr>prod_sem := False\<rparr>,
                    producer := P_at P_wait_reload l'\<rparr>)
             else None))
    \<and> (\<forall>(t :: 'a system) l'. producer t = P_at P_wait_reload l' \<longrightarrow>
          run moved [Prod] t = Some (t\<lparr>queue := (queue t)\<lparr>prod_ci := cons_index (queue t)\<rparr>,
             producer := P_at P_wait_check l'\<rparr>))"
proof -
  have slow: "prod_slow q = (if prod_pi q - cons_event q - 1 < prod_pi q - prod_index q
      then q\<lparr>prod_ci := cons_index q,
             prod_event := cons_index q + (prod_pi q - cons_index q) div 4,
             prod_index := prod_pi q, cons_sem := True, prod_not := prod_not q + 1\<rparr>
      else q\<lparr>prod_ci := cons_index q,
             prod_event := cons_index q + (prod_pi q - cons_index q) div 4,
             prod_index := prod_pi q\<rparr>)"
    by (simp add: prod_slow_def prod_notify_def Semaphore_signal_def)
  have r2: "run moved [Prod, Prod] s = Some (s\<lparr>queue := q\<lparr>prod_ci := cons_index q,
               prod_event := cons_index q + (prod_pi q - cons_index q) div 4\<rparr>,
             producer := P_at (P_notify_publish In_wait) l\<rparr>)"
    using assms by (simp add: prod_has_space_def)
  have r5: "run moved [Prod, Prod, Prod, Prod, Prod] s = Some (s\<lparr>queue := prod_slow q,
             producer := P_at P_wait_recheck (l\<lparr>p_old := prod_index q, p_ce := cons_event q\<rparr>)\<rparr>)"
    using assms by (simp add: prod_has_space_def slow Semaphore_signal_def)
  have r6: "run moved [Prod, Prod, Prod, Prod, Prod, Prod] s = Some (s\<lparr>queue := prod_slow q,
             producer := P_at P_wait_park (l\<lparr>p_old := prod_index q, p_ce := cons_event q\<rparr>)\<rparr>)"
    using assms by (simp add: prod_has_space_def slow Semaphore_signal_def)
  have r7: "run moved [Prod, Prod, Prod, Prod, Prod, Prod, Prod] s = None" if "\<not> prod_sem q"
    using assms that by (simp add: prod_has_space_def slow Semaphore_signal_def Semaphore_wait_def)
  have r8: "run moved [Prod, Prod, Prod, Prod, Prod, Prod, Prod, Prod] s =
          Some (s\<lparr>queue := (prod_slow q)\<lparr>prod_sem := False, prod_ci := cons_index q\<rparr>,
             producer := P_at P_wait_check (l\<lparr>p_old := prod_index q, p_ce := cons_event q\<rparr>)\<rparr>)"
    if "prod_sem q"
    using assms that by (simp add: prod_has_space_def slow Semaphore_signal_def Semaphore_wait_def)
  have first: "run moved [Prod, Prod] s = Some (s\<lparr>queue := q\<lparr>prod_ci := cons_index q,
               prod_event := cons_index q + (prod_pi q - cons_index q) div 4\<rparr>,
             producer := P_at (P_notify_publish In_wait) l\<rparr>)
    \<and> run moved [Prod, Prod, Prod, Prod, Prod] s = Some (s\<lparr>queue := prod_slow q,
             producer := P_at P_wait_recheck (l\<lparr>p_old := prod_index q, p_ce := cons_event q\<rparr>)\<rparr>)
    \<and> run moved [Prod, Prod, Prod, Prod, Prod, Prod] s = Some (s\<lparr>queue := prod_slow q,
             producer := P_at P_wait_park (l\<lparr>p_old := prod_index q, p_ce := cons_event q\<rparr>)\<rparr>)
    \<and> (\<not> prod_sem q \<longrightarrow> run moved [Prod, Prod, Prod, Prod, Prod, Prod, Prod] s = None)
    \<and> (prod_sem q \<longrightarrow> run moved [Prod, Prod, Prod, Prod, Prod, Prod, Prod, Prod] s =
          Some (s\<lparr>queue := (prod_slow q)\<lparr>prod_sem := False, prod_ci := cons_index q\<rparr>,
             producer := P_at P_wait_check (l\<lparr>p_old := prod_index q, p_ce := cons_event q\<rparr>)\<rparr>))
    \<and> prod_event (prod_slow q) = cons_index q + (prod_pi q - cons_index q) div 4
    \<and> prod_wait_space (p_want l) q =
         (if prod_sem q then prod_wait_space (p_want l) ((prod_slow q)\<lparr>prod_sem := False\<rparr>)
          else Parks (prod_slow q))"
    using r2 r5 r6 r7 r8 prod_wait_space_blocked [OF assms(1)] by simp
  have recheck: "\<forall>(t :: 'a system) l'. producer t = P_at P_wait_recheck l' \<longrightarrow>
          run moved [Prod] t = Some (t\<lparr>queue := (queue t)\<lparr>prod_ci := cons_index (queue t)\<rparr>,
             producer := P_at
               (if prod_pi (queue t) - cons_index (queue t) \<le> queue_capacity (queue t) - p_want l'
                then P_write else P_wait_park) l'\<rparr>)"
    by (simp add: prod_has_space_def)
  have park: "\<forall>(t :: 'a system) l'. producer t = P_at P_wait_park l' \<longrightarrow>
          run moved [Prod] t =
            (if prod_sem (queue t)
             then Some (t\<lparr>queue := (queue t)\<lparr>prod_sem := False\<rparr>,
                    producer := P_at P_wait_reload l'\<rparr>)
             else None)"
    by (simp add: Semaphore_wait_def)
  have reload: "\<forall>(t :: 'a system) l'. producer t = P_at P_wait_reload l' \<longrightarrow>
          run moved [Prod] t = Some (t\<lparr>queue := (queue t)\<lparr>prod_ci := cons_index (queue t)\<rparr>,
             producer := P_at P_wait_check l'\<rparr>)"
    by simp
  from first recheck park reload show ?thesis
    by blast
qed

theorem producer_hysteresis_witness:
  "(let q = \<lparr>ring_capacity = 4, queue_capacity = 4, ring = [1, 2, 3, 4 :: nat],
        prod_index = 4, prod_event = 0, prod_ci = 0, prod_pi = 4,
        cons_index = 0, cons_event = 0, cons_ci = 0, cons_pi = 0,
        prod_sem = False, cons_sem = False, cons_not = 0, prod_not = 0\<rparr>;
        l = \<lparr>p_item = 9, p_force = True, p_want = 1, p_old = 0, p_ce = 0\<rparr>;
        s = \<lparr>queue = q, producer = P_at P_wait_check l, consumer = C_idle\<rparr>;
        t = \<lparr>queue = q\<lparr>prod_event := 1, cons_index := 4, cons_ci := 4, cons_pi := 4,
                    prod_sem := True, cons_not := 1\<rparr>,
             producer = P_at P_wait_recheck (l\<lparr>p_old := 4\<rparr>),
             consumer = C_returned True (Some 4) []\<rparr>
    in \<not> prod_pi q - cons_index q \<le> queue_capacity q - p_want l
       \<and> run (\<lambda>x. x) [Prod, Prod] s
           = Some (s\<lparr>queue := q\<lparr>prod_event := 1\<rparr>, producer := P_at (P_notify_publish In_wait) l\<rparr>)
       \<and> run (\<lambda>x. x) [Prod, Prod, Prod, Prod, Prod, Prod, Prod] s = None
       \<and> prod_wait_space 1 q = Parks (q\<lparr>prod_event := 1\<rparr>)
       \<and> run (\<lambda>x. x) [Prod, Prod, Prod, Prod, Prod,
             Pop, Cons, Cons, Cons, Pop, Cons, Cons, Cons, Pop, Cons, Cons, Cons,
             Pop, Cons, Cons, Cons, Cons, Cons, Cons] s = Some t
       \<and> run (\<lambda>x. x) [Prod] t
           = Some (t\<lparr>queue := (queue t)\<lparr>prod_ci := 4\<rparr>,
                     producer := P_at P_write (l\<lparr>p_old := 4\<rparr>)\<rparr>))"
proof -
  let ?q = "\<lparr>ring_capacity = 4, queue_capacity = 4, ring = [1, 2, 3, 4 :: nat],
        prod_index = 4, prod_event = 0, prod_ci = 0, prod_pi = 4,
        cons_index = 0, cons_event = 0, cons_ci = 0, cons_pi = 0,
        prod_sem = False, cons_sem = False, cons_not = 0, prod_not = 0\<rparr>"
  let ?l = "\<lparr>p_item = 9 :: nat, p_force = True, p_want = 1, p_old = 0, p_ce = 0\<rparr>"
  let ?s = "\<lparr>queue = ?q, producer = P_at P_wait_check ?l, consumer = C_idle\<rparr>"
  let ?t = "\<lparr>queue = ?q\<lparr>prod_event := 1, cons_index := 4, cons_ci := 4, cons_pi := 4,
                    prod_sem := True, cons_not := 1\<rparr>,
             producer = P_at P_wait_recheck (?l\<lparr>p_old := 4\<rparr>),
             consumer = C_returned True (Some 4) []\<rparr>"
  have h: "\<not> prod_pi ?q - cons_index ?q \<le> queue_capacity ?q - p_want ?l"
    by simp
  have hq: "queue ?s = ?q" and hp: "producer ?s = P_at P_wait_check ?l"
    by simp_all
  have slow: "prod_slow ?q = ?q\<lparr>prod_event := 1\<rparr>"
    by (simp add: prod_slow_def prod_notify_def)
  note main = producer_hysteresis [OF h hq hp, of "\<lambda>x. x"]
  from main have old: "run (\<lambda>x. x) [Prod, Prod] ?s
           = Some (?s\<lparr>queue := ?q\<lparr>prod_event := 1\<rparr>, producer := P_at (P_notify_publish In_wait) ?l\<rparr>)
       \<and> run (\<lambda>x. x) [Prod, Prod, Prod, Prod, Prod, Prod, Prod] ?s = None
       \<and> prod_wait_space 1 ?q = Parks (?q\<lparr>prod_event := 1\<rparr>)"
    using slow by simp
  from main have "\<forall>(t :: nat system) l'. producer t = P_at P_wait_recheck l' \<longrightarrow>
          run (\<lambda>x. x) [Prod] t = Some (t\<lparr>queue := (queue t)\<lparr>prod_ci := cons_index (queue t)\<rparr>,
             producer := P_at
               (if prod_pi (queue t) - cons_index (queue t) \<le> queue_capacity (queue t) - p_want l'
                then P_write else P_wait_park) l'\<rparr>)"
    by (elim conjE)
  then have "producer ?t = P_at P_wait_recheck (?l\<lparr>p_old := 4\<rparr>) \<longrightarrow>
          run (\<lambda>x. x) [Prod] ?t = Some (?t\<lparr>queue := (queue ?t)\<lparr>prod_ci := cons_index (queue ?t)\<rparr>,
             producer := P_at
               (if prod_pi (queue ?t) - cons_index (queue ?t)
                    \<le> queue_capacity (queue ?t) - p_want (?l\<lparr>p_old := 4\<rparr>)
                then P_write else P_wait_park) (?l\<lparr>p_old := 4\<rparr>)\<rparr>)"
    by blast
  then have again: "run (\<lambda>x. x) [Prod] ?t
           = Some (?t\<lparr>queue := (queue ?t)\<lparr>prod_ci := 4\<rparr>,
                     producer := P_at P_write (?l\<lparr>p_old := 4\<rparr>)\<rparr>)"
    by simp
  have moved: "run (\<lambda>x. x) [Prod, Prod, Prod, Prod, Prod,
             Pop, Cons, Cons, Cons, Pop, Cons, Cons, Cons, Pop, Cons, Cons, Cons,
             Pop, Cons, Cons, Cons, Cons, Cons, Cons] ?s = Some ?t"
    by (simp add: prod_has_space_def cons_locals0_def cons_has_data_def cons_wait_done_def
        normalize_index_def Semaphore_signal_def)
  from h old moved again show ?thesis
    by (simp only: Let_def simp_thms)
qed

text \<open>
  C9, as the code has it. A push with \<^verbatim>\<open>force = false\<close> that finds a free slot at its
  first check changes the producer's shadow \<open>prod_ci\<close>, the slot and \<open>prod_pi\<close>, and
  nothing else: the published producer index, the events, the consumer's fields, both
  semaphores and both counters are as before, so the consumer sees what it saw. With
  \<^verbatim>\<open>force = true\<close> the same push then runs \<^verbatim>\<open>prod_notify\<close>, which stores the new
  \<open>prod_pi\<close> to the published index. \<^verbatim>\<open>prod_advance\<close> itself, without \<^verbatim>\<open>force\<close>,
  changes \<open>prod_pi\<close> only.
\<close>

theorem deferred_publication:
  assumes "prod_pi q - cons_index q \<le> queue_capacity q - 1"
  shows "push_front x False q = Returns True
      (q\<lparr>prod_ci := cons_index q,
         ring := (ring q)[unat (normalize_index q (prod_pi q)) := x],
         prod_pi := prod_pi q + 1\<rparr>)
    \<and> push_front x True q = Returns True
      (prod_notify (q\<lparr>prod_ci := cons_index q,
         ring := (ring q)[unat (normalize_index q (prod_pi q)) := x],
         prod_pi := prod_pi q + 1\<rparr>))
    \<and> (\<forall>q'. push_front x True q = Returns True q' \<longrightarrow> prod_index q' = prod_pi q + 1)
    \<and> prod_advance n False q = q\<lparr>prod_pi := prod_pi q + n\<rparr>
    \<and> prod_advance n True q = prod_notify (q\<lparr>prod_pi := prod_pi q + n\<rparr>)"
  using assms by (simp add: push_front_returns prod_advance_def)

theorem deferred_publication_witness:
  "(let q = \<lparr>ring_capacity = 4, queue_capacity = 4, ring = [1, 0, 0, 0 :: nat],
        prod_index = 1, prod_event = 0, prod_ci = 0, prod_pi = 1,
        cons_index = 0, cons_event = 0, cons_ci = 0, cons_pi = 0,
        prod_sem = False, cons_sem = False, cons_not = 0, prod_not = 0\<rparr>
    in prod_pi q - cons_index q \<le> queue_capacity q - 1
       \<and> push_front 2 False q = Returns True (q\<lparr>ring := [1, 2, 0, 0], prod_pi := 2\<rparr>)
       \<and> push_front 2 True q = Returns True
            (q\<lparr>ring := [1, 2, 0, 0], prod_pi := 2, prod_index := 2\<rparr>))"
proof -
  let ?q = "\<lparr>ring_capacity = 4, queue_capacity = 4, ring = [1, 0, 0, 0 :: nat],
        prod_index = 1, prod_event = 0, prod_ci = 0, prod_pi = 1,
        cons_index = 0, cons_event = 0, cons_ci = 0, cons_pi = 0,
        prod_sem = False, cons_sem = False, cons_not = 0, prod_not = 0\<rparr>"
  have h: "prod_pi ?q - cons_index ?q \<le> queue_capacity ?q - 1"
    by simp
  from deferred_publication [OF h, of 2] h show ?thesis
    by (simp add: Let_def normalize_index_def prod_notify_def Semaphore_signal_def)
qed

text \<open>
  The claim C9 as stated fails for a push that has to wait. A queue of capacity 1 holds
  one item pushed with \<^verbatim>\<open>force = false\<close>, not yet published. The second push with
  \<^verbatim>\<open>force = false\<close> finds no space; after five steps of its own, before the consumer
  has moved, it has stored 1 to the published producer index and signalled the
  consumer's semaphore. The consumer then pops, the producer wakes, and the push
  returns \<^verbatim>\<open>true\<close>.
\<close>

theorem waiting_push_publishes:
  "(let q0 = \<lparr>ring_capacity = 1, queue_capacity = 1, ring = [0 :: nat],
        prod_index = 0, prod_event = 0, prod_ci = 0, prod_pi = 0,
        cons_index = 0, cons_event = 0, cons_ci = 0, cons_pi = 0,
        prod_sem = False, cons_sem = False, cons_not = 0, prod_not = 0\<rparr>;
        s1 = \<lparr>queue = q0\<lparr>ring := [1], prod_pi := 1\<rparr>, producer = P_returned True,
              consumer = C_idle\<rparr>
    in new_SPSCQueue \<lparr>log2 = \<lambda>d. log 2 (real d), can_alloc = \<lambda>n. True, fresh = \<lambda>i. 0\<rparr> 1
         = Inr q0
       \<and> run (\<lambda>x. x) [Push 1 False, Prod, Prod, Prod] (start q0) = Some s1
       \<and> run (\<lambda>x. x) [Push 2 False, Prod, Prod, Prod, Prod, Prod] s1
           = Some \<lparr>queue = q0\<lparr>ring := [1], prod_pi := 1, prod_index := 1, cons_sem := True,
                      prod_not := 1\<rparr>,
                    producer = P_at P_wait_recheck
                      \<lparr>p_item = 2, p_force = False, p_want = 1, p_old = 0, p_ce = 0\<rparr>,
                    consumer = C_idle\<rparr>
       \<and> run (\<lambda>x. x) [Push 2 False, Prod, Prod, Prod, Prod, Prod, Prod,
             Pop, Cons, Cons, Cons, Cons, Cons, Cons,
             Prod, Prod, Prod, Prod, Prod] s1
           = Some \<lparr>queue = q0\<lparr>ring := [2], prod_pi := 2, prod_index := 1, prod_ci := 1,
                      cons_index := 1, cons_ci := 1, cons_pi := 1, cons_sem := True,
                      prod_not := 1, cons_not := 1\<rparr>,
                    producer = P_returned True,
                    consumer = C_returned True (Some 1) []\<rparr>)"
proof -
  let ?pf = "\<lparr>log2 = \<lambda>d. log 2 (real d), can_alloc = \<lambda>n. True, fresh = \<lambda>i. 0 :: nat\<rparr>"
  have rc: "shl 1 (log2_ceil ?pf 1) = 1"
    by (simp add: shl_def log2_ceil_def to_double_exact)
  have fill: "map (fresh ?pf) [0..<unat (1 :: size_t)] = [0]"
    by simp
  have new: "new_SPSCQueue ?pf 1 = Inr \<lparr>ring_capacity = 1, queue_capacity = 1, ring = [0 :: nat],
        prod_index = 0, prod_event = 0, prod_ci = 0, prod_pi = 0,
        cons_index = 0, cons_event = 0, cons_ci = 0, cons_pi = 0,
        prod_sem = False, cons_sem = False, cons_not = 0, prod_not = 0\<rparr>"
    unfolding new_SPSCQueue_eq rc fill by simp
  show ?thesis
    unfolding Let_def
    by (intro conjI new)
      (simp_all add: start_def prod_locals0_def cons_locals0_def prod_has_space_def
        cons_has_data_def cons_wait_done_def normalize_index_def Semaphore_signal_def
        Semaphore_wait_def)
qed

section \<open>Reachable states have an intact ring\<close>

lemma new_SPSCQueue_ring_ok:
  assumes "new_SPSCQueue pf c = Inr q"
  shows "ring_ok q"
    and "prod_pi q = prod_index q" and "cons_ci q = prod_index q" and "cons_index q = cons_ci q"
proof -
  note q = new_SPSCQueue_Inr [OF assms]
  have "ring_capacity q = shl 1 (log2_ceil pf c)"
    "length (ring q) = unat (shl 1 (log2_ceil pf c))"
    by (simp_all add: q)
  then show "ring_ok q"
    unfolding ring_ok_def using shl_1_power [of "log2_ceil pf c"] by simp
  show "prod_pi q = prod_index q" "cons_ci q = prod_index q" "cons_index q = cons_ci q"
    by (simp_all add: q)
qed

lemma prod_step_ring:
  "prod_step lab l q = Some (q', p') \<Longrightarrow>
   ring_capacity q' = ring_capacity q \<and> length (ring q') = length (ring q)"
  by (cases lab)
    (auto simp: prod_has_space_def Semaphore_wait_def split: if_splits)

lemma cons_step_ring:
  "cons_step moved lab l q = Some (q', c') \<Longrightarrow>
   ring_capacity q' = ring_capacity q \<and> length (ring q') = length (ring q)"
  by (cases lab)
    (auto simp: cons_has_data_def Semaphore_wait_def Let_def split: if_splits)

lemma exec_ring:
  assumes "exec moved e s = Some s'"
  shows "ring_capacity (queue s') = ring_capacity (queue s)
    \<and> length (ring (queue s')) = length (ring (queue s))"
proof (cases e)
  case (Push x f)
  then show ?thesis
    using assms by (cases "producer s") auto
next
  case Pop
  then show ?thesis
    using assms by (cases "consumer s") auto
next
  case (Pop_vec v)
  then show ?thesis
    using assms by (cases "consumer s") auto
next
  case Prod
  then show ?thesis
    using assms by (cases "producer s") (auto split: option.splits dest: prod_step_ring)
next
  case Cons
  then show ?thesis
    using assms by (cases "consumer s") (auto split: option.splits dest: cons_step_ring)
qed

lemma run_ring:
  "run moved evs s = Some s' \<Longrightarrow>
   ring_capacity (queue s') = ring_capacity (queue s)
   \<and> length (ring (queue s')) = length (ring (queue s))"
proof (induction evs arbitrary: s)
  case Nil
  then show ?case
    by simp
next
  case (Cons e evs)
  from Cons.prems obtain s1 where e: "exec moved e s = Some s1"
    and r: "run moved evs s1 = Some s'"
    by (auto split: option.splits)
  from exec_ring [OF e] Cons.IH [OF r] show ?case
    by simp
qed

text \<open>
  Every state reached from a constructed queue has the ring the constructor made, a
  power of two slots; and where the constructor made the ring at least as large as the
  logical capacity, the published elements fit into it.
\<close>

lemma reachable_ring_ok:
  assumes "new_SPSCQueue pf c = Inr q0" "1 \<le> unat c"
    and "run moved evs (start q0) = Some s"
  shows "ring_ok (queue s)"
    and "unat c \<le> length (ring q0) \<Longrightarrow>
         unat (prod_index (queue s) - cons_ci (queue s)) \<le> length (ring (queue s))"
proof -
  note new = new_SPSCQueue_ring_ok [OF assms(1)]
  from run_ring [OF assms(3)] have same: "ring_capacity (queue s) = ring_capacity q0"
    "length (ring (queue s)) = length (ring q0)"
    by (simp_all add: start_def)
  then show "ring_ok (queue s)"
    using new(1) by (simp add: ring_ok_cong [of "queue s" q0])
  have c0: "c \<noteq> 0"
    using assms(2) by auto
  note st = start_invariant [OF assms(1) c0]
  from run_invariant [OF st(1) assms(3)] st(2)
  have inv: "invariant s" and cap: "queue_capacity (queue s) = c"
    by (simp_all add: start_def)
  let ?q = "queue s" and ?b = "prod_ci (queue s)"
  from inv have o: "unat (cons_ci ?q - ?b) \<le> unat (cons_pi ?q - ?b)"
    "unat (cons_pi ?q - ?b) \<le> unat (prod_index ?q - ?b)"
    "unat (prod_index ?q - ?b) \<le> unat (prod_pi ?q - ?b)"
    "unat (prod_pi ?q - ?b) \<le> unat (queue_capacity ?q)"
    by (simp_all add: invariant_def ordered_def offs_def)
  then have "unat (prod_index ?q - cons_ci ?q) \<le> unat c"
    using off_diff [of "cons_ci ?q" ?b "prod_index ?q"] by (simp add: cap)
  then show "unat (prod_index ?q - cons_ci ?q) \<le> length (ring ?q)"
    if "unat c \<le> length (ring q0)"
    using that same(2) by simp
qed

end
